theory Spec2Isabelle
  imports
    Main
    "HOL-Library.AList"
    "HOL-Library.Char_ord"
    "HOL-Library.List_Lexorder"
    "HOL-Library.Multiset"
begin

section \<open>Quine-McCluskey term merging (qm.py)\<close>

text \<open>
  A term is a Python string; it is modelled as a \<open>string\<close>, one \<open>char\<close> per character.
  Python integers (\<open>num_inputs\<close>, dictionary keys, counters) are \<open>int\<close>.
  The dictionaries \<open>groups\<close> and \<open>next_groups\<close> are association lists in insertion
  order, the sets \<open>used\<close> and \<open>prime_implicants\<close> are HOL sets.
  A failing dictionary or list access is the value \<open>Inl KeyError\<close> / \<open>Inl IndexError\<close>,
  a failing \<open>int(...)\<close> is \<open>Inl ValueError\<close>.
\<close>

datatype error = KeyError | IndexError | ValueError

type_synonym groups = "(int \<times> string list) list"

subsection \<open>The nested helpers of \<open>quine_mccluskey\<close>\<close>

text \<open>\<^verbatim>\<open>binary_string.count('1')\<close>\<close>

definition count_ones :: "string \<Rightarrow> int" where
  "count_ones binary_string = int (count_list binary_string (CHR ''1''))"

text \<open>
  The loop of \<open>combine_terms\<close> over \<open>zip(term1, term2)\<close>; the state is
  \<open>(diff_count, combined)\<close>.
\<close>

fun combine_loop :: "(char \<times> char) list \<Rightarrow> int \<times> string \<Rightarrow> int \<times> string" where
  "combine_loop [] (diff_count, combined) = (diff_count, combined)"
| "combine_loop ((b1, b2) # ps) (diff_count, combined) =
     (if b1 \<noteq> b2 then combine_loop ps (diff_count + 1, combined @ [CHR ''-''])
      else combine_loop ps (diff_count, combined @ [b1]))"

definition combine_terms :: "string \<Rightarrow> string \<Rightarrow> string option" where
  "combine_terms term1 term2 =
     (case combine_loop (zip term1 term2) (0, []) of
        (diff_count, combined) \<Rightarrow> if diff_count = 1 then Some combined else None)"

subsection \<open>Step 1: grouping by the number of ones\<close>

text \<open>\<^verbatim>\<open>{i: [] for i in range(num_inputs + 1)}\<close>\<close>

definition empty_groups :: "int \<Rightarrow> groups" where
  "empty_groups num_inputs = map (\<lambda>i. (i, [])) [0..num_inputs]"

text \<open>\<^verbatim>\<open>d[k].append(t)\<close>: a missing key raises KeyError.\<close>

definition append_to :: "groups \<Rightarrow> int \<Rightarrow> string \<Rightarrow> error + groups" where
  "append_to d k t =
     (case map_of d k of
        None \<Rightarrow> Inl KeyError
      | Some ts \<Rightarrow> Inr (AList.update k (ts @ [t]) d))"

text \<open>\<^verbatim>\<open>len(term) != num_inputs or not all(c in '01-' for c in term)\<close>\<close>

definition invalid_term :: "int \<Rightarrow> string \<Rightarrow> bool" where
  "invalid_term num_inputs t \<longleftrightarrow>
     int (length t) \<noteq> num_inputs \<or> \<not> list_all (\<lambda>c. c \<in> set ''01-'') t"

text \<open>
  The grouping loop. The state is the dictionary together with the list of terms for
  which the warning \<open>Invalid term skipped\<close> has been printed.
\<close>

fun group_minterms ::
  "int \<Rightarrow> string list \<Rightarrow> groups \<times> string list \<Rightarrow> error + (groups \<times> string list)" where
  "group_minterms num_inputs [] (gs, warned) = Inr (gs, warned)"
| "group_minterms num_inputs (t # minterms) (gs, warned) =
     (if invalid_term num_inputs t
      then group_minterms num_inputs minterms (gs, warned @ [t])
      else (case append_to gs (count_ones t) t of
              Inl e \<Rightarrow> Inl e
            | Inr gs' \<Rightarrow> group_minterms num_inputs minterms (gs', warned)))"

subsection \<open>Step 2: one pass of the merge loop\<close>

text \<open>\<^verbatim>\<open>for term2 in groups[i + 1]\<close>; the state is \<open>(next_groups, used)\<close>.\<close>

fun merge_inner ::
  "string \<Rightarrow> string list \<Rightarrow> groups \<times> string set \<Rightarrow> error + (groups \<times> string set)" where
  "merge_inner term1 [] (next_groups, used) = Inr (next_groups, used)"
| "merge_inner term1 (term2 # ts) (next_groups, used) =
     (case combine_terms term1 term2 of
        None \<Rightarrow> merge_inner term1 ts (next_groups, used)
      | Some combined \<Rightarrow>
          if combined = [] then merge_inner term1 ts (next_groups, used)
          else (case append_to next_groups (count_ones combined) combined of
                  Inl e \<Rightarrow> Inl e
                | Inr next_groups' \<Rightarrow>
                    merge_inner term1 ts (next_groups', insert term2 (insert term1 used))))"

text \<open>\<^verbatim>\<open>for term1 in groups[i]\<close>; \<open>groups[i + 1]\<close> is looked up once per \<open>term1\<close>.\<close>

fun merge_middle ::
  "groups \<Rightarrow> int \<Rightarrow> string list \<Rightarrow> groups \<times> string set \<Rightarrow> error + (groups \<times> string set)" where
  "merge_middle gs i [] st = Inr st"
| "merge_middle gs i (term1 # ts) st =
     (case map_of gs (i + 1) of
        None \<Rightarrow> Inl KeyError
      | Some g2 \<Rightarrow>
          (case merge_inner term1 g2 st of
             Inl e \<Rightarrow> Inl e
           | Inr st' \<Rightarrow> merge_middle gs i ts st'))"

text \<open>\<^verbatim>\<open>for i in range(num_inputs)\<close>\<close>

fun merge_outer ::
  "groups \<Rightarrow> int list \<Rightarrow> groups \<times> string set \<Rightarrow> error + (groups \<times> string set)" where
  "merge_outer gs [] st = Inr st"
| "merge_outer gs (i # is) st =
     (case map_of gs i of
        None \<Rightarrow> Inl KeyError
      | Some g1 \<Rightarrow>
          (case merge_middle gs i g1 st of
             Inl e \<Rightarrow> Inl e
           | Inr st' \<Rightarrow> merge_outer gs is st'))"

text \<open>
  \<^verbatim>\<open>for group in groups.values(): for term in group:
      if term not in used: prime_implicants.add(term)\<close>
\<close>

definition collect_primes :: "groups \<Rightarrow> string set \<Rightarrow> string set \<Rightarrow> string set" where
  "collect_primes gs used prime_implicants =
     fold (\<lambda>group acc. fold (\<lambda>t acc'. if t \<notin> used then insert t acc' else acc') group acc)
       (map snd gs) prime_implicants"

text \<open>\<^verbatim>\<open>any(next_groups.values())\<close>: some list of the dictionary is not empty.\<close>

definition any_values :: "groups \<Rightarrow> bool" where
  "any_values gs = list_ex (\<lambda>group. group \<noteq> []) (map snd gs)"

text \<open>
  The body of \<open>while True\<close> up to the test for \<open>break\<close>: it returns \<open>next_groups\<close> and
  the prime implicants collected so far.
\<close>

definition qm_pass :: "int \<Rightarrow> groups \<Rightarrow> string set \<Rightarrow> error + (groups \<times> string set)" where
  "qm_pass num_inputs gs prime_implicants =
     (case merge_outer gs [0..num_inputs - 1] (empty_groups num_inputs, {}) of
        Inl e \<Rightarrow> Inl e
      | Inr (next_groups, used) \<Rightarrow>
          Inr (next_groups, collect_primes gs used prime_implicants))"

text \<open>
  \<open>while True\<close>: the loop may run forever, so the result is an option and \<open>None\<close> stands
  for a run that never leaves the loop.
\<close>

partial_function (option) qm_loop ::
  "int \<Rightarrow> groups \<Rightarrow> string set \<Rightarrow> (error + string set) option" where
  "qm_loop num_inputs gs prime_implicants =
     (case qm_pass num_inputs gs prime_implicants of
        Inl e \<Rightarrow> Some (Inl e)
      | Inr (next_groups, prime_implicants') \<Rightarrow>
          if \<not> any_values next_groups then Some (Inr prime_implicants')
          else qm_loop num_inputs next_groups prime_implicants')"

declare qm_loop.simps [code]

text \<open>
  The same loop cut off after a number of passes: \<open>None\<close> when the loop has not reached
  \<open>break\<close> within \<open>passes\<close> executions of its body.
\<close>

fun qm_loop_within ::
  "nat \<Rightarrow> int \<Rightarrow> groups \<Rightarrow> string set \<Rightarrow> (error + string set) option" where
  "qm_loop_within 0 num_inputs gs prime_implicants = None"
| "qm_loop_within (Suc passes) num_inputs gs prime_implicants =
     (case qm_pass num_inputs gs prime_implicants of
        Inl e \<Rightarrow> Some (Inl e)
      | Inr (next_groups, prime_implicants') \<Rightarrow>
          if \<not> any_values next_groups then Some (Inr prime_implicants')
          else qm_loop_within passes num_inputs next_groups prime_implicants')"

text \<open>\<open>sorted(prime_implicants)\<close>: strings in lexicographic order of their characters.\<close>

definition quine_mccluskey :: "int \<Rightarrow> string list \<Rightarrow> (error + string list) option" where
  "quine_mccluskey num_inputs minterms =
     (case group_minterms num_inputs minterms (empty_groups num_inputs, []) of
        Inl e \<Rightarrow> Some (Inl e)
      | Inr (gs, warned) \<Rightarrow>
          (case qm_loop num_inputs gs {} of
             None \<Rightarrow> None
           | Some (Inl e) \<Rightarrow> Some (Inl e)
           | Some (Inr prime_implicants) \<Rightarrow> Some (Inr (sorted_list_of_set prime_implicants))))"

definition quine_mccluskey_within ::
  "nat \<Rightarrow> int \<Rightarrow> string list \<Rightarrow> (error + string list) option" where
  "quine_mccluskey_within passes num_inputs minterms =
     (case group_minterms num_inputs minterms (empty_groups num_inputs, []) of
        Inl e \<Rightarrow> Some (Inl e)
      | Inr (gs, warned) \<Rightarrow>
          (case qm_loop_within passes num_inputs gs {} of
             None \<Rightarrow> None
           | Some (Inl e) \<Rightarrow> Some (Inl e)
           | Some (Inr prime_implicants) \<Rightarrow> Some (Inr (sorted_list_of_set prime_implicants))))"

section \<open>Reading and writing the PLA text (qm.py)\<close>

text \<open>
  The functions of the Python library that \<open>parse_pla_data\<close> and \<open>write_pla_output\<close> call
  are modelled on strings whose characters are below 256: \<open>str.splitlines\<close>,
  \<open>str.split\<close> without arguments, \<open>str.startswith\<close>, \<open>int\<close> of a string in base 10
  and the formatting of an integer in an f-string. The limit some interpreter versions
  put on the number of digits of a converted integer is not part of the model.
\<close>

















subsection \<open>\<open>parse_pla_data\<close>\<close>



subsection \<open>\<open>write_pla_output\<close>\<close>


section \<open>Notions used to state the properties\<close>

text \<open>The terms stored under key \<open>k\<close> of a dictionary, and all terms of a dictionary.\<close>

definition bucket :: "groups \<Rightarrow> int \<Rightarrow> string set" where
  "bucket gs k = (case map_of gs k of None \<Rightarrow> {} | Some g \<Rightarrow> set g)"

definition terms_of :: "groups \<Rightarrow> string set" where
  "terms_of gs = set (concat (map snd gs))"

text \<open>
  The shape every generation of \<open>groups\<close> has: the keys are \<open>0..num_inputs\<close> in
  order, and a term is stored under its number of ones and passes the validity check.
\<close>

definition wf_groups :: "int \<Rightarrow> groups \<Rightarrow> bool" where
  "wf_groups n gs \<longleftrightarrow>
     map fst gs = [0..n] \<and>
     (\<forall>k. \<forall>t \<in> bucket gs k. \<not> invalid_term n t \<and> count_ones t = k)"

text \<open>The terms that pass the validity check of the grouping loop.\<close>

definition valid_terms :: "int \<Rightarrow> string list \<Rightarrow> string set" where
  "valid_terms n ms = {t \<in> set ms. \<not> invalid_term n t}"

text \<open>
  One pass seen on sets: the terms a pass puts into \<open>next_groups\<close>, and the terms it
  marks as used, for the set \<open>T\<close> of terms of the current generation.
\<close>

definition merged_terms :: "string set \<Rightarrow> string set" where
  "merged_terms T =
     {c. \<exists>a \<in> T. \<exists>b \<in> T. count_ones b = count_ones a + 1 \<and> combine_terms a b = Some c}"

definition used_terms :: "string set \<Rightarrow> string set" where
  "used_terms T =
     {t. \<exists>a \<in> T. \<exists>b \<in> T. count_ones b = count_ones a + 1 \<and> combine_terms a b \<noteq> None \<and>
          (t = a \<or> t = b)}"

text \<open>
  What \<open>k\<close> passes starting from the terms \<open>T\<close> add to \<open>prime_implicants\<close>.
\<close>

fun survivors :: "nat \<Rightarrow> string set \<Rightarrow> string set" where
  "survivors 0 T = {}"
| "survivors (Suc k) T = (T - used_terms T) \<union> survivors k (merged_terms T)"

text \<open>
  \<open>covers t m\<close>: at every position \<open>t\<close> has \<open>-\<close> or the symbol of \<open>m\<close>.
\<close>

definition covers :: "string \<Rightarrow> string \<Rightarrow> bool" where
  "covers t m \<longleftrightarrow> list_all2 (\<lambda>x y. x = CHR ''-'' \<or> x = y) t m"

text \<open>
  The dictionaries \<open>groups\<close> that a run of \<open>quine_mccluskey num_inputs minterms\<close> holds
  at the start of its passes: the result of the grouping loop, and \<open>next_groups\<close> of a
  pass that did not end in \<open>break\<close>.
\<close>

inductive generation :: "int \<Rightarrow> string list \<Rightarrow> groups \<Rightarrow> bool" for n ms where
  initial: "group_minterms n ms (empty_groups n, []) = Inr (gs, warned) \<Longrightarrow> generation n ms gs"
| step: "generation n ms gs \<Longrightarrow> qm_pass n gs primes = Inr (next_groups, primes') \<Longrightarrow>
         any_values next_groups \<Longrightarrow> generation n ms next_groups"

text \<open>
  For the re-reduction property: the number of don't-care symbols of a term, terms all
  of whose covered minterms belong to a set \<open>M\<close>, and the well-formed such terms with
  exactly \<open>j\<close> don't-care symbols.
\<close>

definition dashes :: "string \<Rightarrow> nat" where
  "dashes t = count_list t (CHR ''-'')"

definition implicant :: "string set \<Rightarrow> string \<Rightarrow> bool" where
  "implicant M c \<longleftrightarrow> (\<forall>m. set m \<subseteq> {CHR ''0'', CHR ''1''} \<and> covers c m \<longrightarrow> m \<in> M)"

definition cubes :: "int \<Rightarrow> string set \<Rightarrow> nat \<Rightarrow> string set" where
  "cubes n M j = {c. \<not> invalid_term n c \<and> dashes c = j \<and> implicant M c}"



section \<open>The term model\<close>

lemma combine_loop_eq:
  "combine_loop ps (d, c) =
     (d + int (length (filter (\<lambda>(x, y). x \<noteq> y) ps)),
      c @ map (\<lambda>(x, y). if x \<noteq> y then CHR ''-'' else x) ps)"
  by (induction ps arbitrary: d c) auto

lemma combine_terms_eq:
  "combine_terms a b =
     (if length (filter (\<lambda>(x, y). x \<noteq> y) (zip a b)) = 1
      then Some (map (\<lambda>(x, y). if x \<noteq> y then CHR ''-'' else x) (zip a b)) else None)"
  by (simp add: combine_terms_def combine_loop_eq)

lemma diff_count_card:
  "length a = length b \<Longrightarrow>
   length (filter (\<lambda>(x, y). x \<noteq> y) (zip a b)) = card {i. i < length a \<and> a ! i \<noteq> b ! i}"
proof -
  assume len: "length a = length b"
  have "{i. i < length (zip a b) \<and> (case zip a b ! i of (x, y) \<Rightarrow> x \<noteq> y)}
      = {i. i < length a \<and> a ! i \<noteq> b ! i}"
    using len by auto
  then show ?thesis
    by (simp add: length_filter_conv_card)
qed

lemma card_one_iff_ex1:
  "finite S \<Longrightarrow> card S = 1 \<longleftrightarrow> (\<exists>!i. i \<in> S)"
  by (auto simp: card_1_singleton_iff)

section \<open>The grouping dictionaries\<close>

lemma count_ones_bounds: "0 \<le> count_ones t \<and> count_ones t \<le> int (length t)"
  by (simp add: count_ones_def count_le_length)

lemma valid_count_ones: "\<not> invalid_term n t \<Longrightarrow> 0 \<le> count_ones t \<and> count_ones t \<le> n"
  using count_ones_bounds [of t] by (auto simp: invalid_term_def)

lemma terms_of_bucket:
  assumes "distinct (map fst gs)"
  shows "terms_of gs = (\<Union>k. bucket gs k)"
proof -
  have 1: "t \<in> terms_of gs \<longleftrightarrow> (\<exists>k g. (k, g) \<in> set gs \<and> t \<in> set g)" for t
    by (force simp: terms_of_def)
  have 2: "(k, g) \<in> set gs \<longleftrightarrow> map_of gs k = Some g" for k g
    using assms by simp
  have 3: "t \<in> bucket gs k \<longleftrightarrow> (\<exists>g. map_of gs k = Some g \<and> t \<in> set g)" for t k
    by (cases "map_of gs k") (simp_all add: bucket_def)
  have "t \<in> terms_of gs \<longleftrightarrow> t \<in> (\<Union>k. bucket gs k)" for t
    unfolding 1 2 using 3 by blast
  then show ?thesis by blast
qed

lemma wf_distinct: "wf_groups n gs \<Longrightarrow> distinct (map fst gs)"
  by (simp add: wf_groups_def)

lemma wf_lookup:
  assumes "wf_groups n gs" "0 \<le> k" "k \<le> n"
  shows "\<exists>g. map_of gs k = Some g"
proof -
  have "k \<in> set (map fst gs)" using assms by (simp add: wf_groups_def)
  then have "k \<in> dom (map_of gs)" by (simp add: dom_map_of_conv_image_fst)
  then show ?thesis by blast
qed

lemma wf_bucket_eq:
  assumes "wf_groups n gs"
  shows "bucket gs k = {t \<in> terms_of gs. count_ones t = k}"
proof -
  have c: "count_ones t = j" if "t \<in> bucket gs j" for t j
    using assms that by (simp add: wf_groups_def)
  show ?thesis
    unfolding terms_of_bucket [OF wf_distinct [OF assms]] using c by blast
qed

lemma wf_terms_valid:
  assumes "wf_groups n gs" "t \<in> terms_of gs"
  shows "\<not> invalid_term n t"
proof -
  from assms(2) obtain k where "t \<in> bucket gs k"
    unfolding terms_of_bucket [OF wf_distinct [OF assms(1)]] by blast
  with assms(1) show ?thesis by (simp add: wf_groups_def)
qed

lemma map_of_empty_groups:
  "map_of (empty_groups n) k = (if 0 \<le> k \<and> k \<le> n then Some [] else None)"
proof -
  have "map_of (map (\<lambda>i. (i, [])) is) k = (if k \<in> set is then Some [] else None)"
    for "is" :: "int list"
    by (induction "is") auto
  from this [of "[0..n]"] show ?thesis by (simp add: empty_groups_def)
qed

lemma wf_empty_groups: "wf_groups n (empty_groups n)"
proof -
  have "map fst (empty_groups n) = [0..n]"
    by (simp add: empty_groups_def comp_def)
  moreover have "bucket (empty_groups n) k = {}" for k
    by (simp add: bucket_def map_of_empty_groups)
  ultimately show ?thesis by (simp add: wf_groups_def)
qed

lemma terms_of_empty_groups: "terms_of (empty_groups n) = {}"
  by (auto simp: terms_of_def empty_groups_def)

lemma append_to_wf:
  assumes wf: "wf_groups n gs" and v: "\<not> invalid_term n t"
  shows "\<exists>gs'. append_to gs (count_ones t) t = Inr gs' \<and> wf_groups n gs' \<and>
           terms_of gs' = insert t (terms_of gs)"
proof -
  from valid_count_ones [OF v] wf_lookup [OF wf]
  obtain g where g: "map_of gs (count_ones t) = Some g" by blast
  let ?gs' = "AList.update (count_ones t) (g @ [t]) gs"
  have key: "count_ones t \<in> set (map fst gs)"
    using wf valid_count_ones [OF v] by (simp add: wf_groups_def)
  have keys: "map fst ?gs' = [0..n]"
    using wf key by (simp add: update_keys wf_groups_def del: set_map)
  have b: "bucket ?gs' k = (if k = count_ones t then insert t (bucket gs k) else bucket gs k)" for k
    using g by (auto simp: bucket_def update_conv')
  have "\<not> invalid_term n s \<and> count_ones s = k" if "s \<in> bucket ?gs' k" for s k
  proof (cases "s \<in> bucket gs k")
    case True
    with wf show ?thesis by (simp add: wf_groups_def)
  next
    case False
    with that have "k = count_ones t \<and> s = t" by (simp add: b split: if_splits)
    with v show ?thesis by simp
  qed
  with keys have wf': "wf_groups n ?gs'"
    by (simp add: wf_groups_def)
  have "t \<in> bucket ?gs' (count_ones t)" by (simp add: b)
  moreover have "bucket gs k \<subseteq> bucket ?gs' k" for k by (auto simp: b)
  moreover have "bucket ?gs' k \<subseteq> insert t (bucket gs k)" for k by (auto simp: b)
  ultimately have "(\<Union>k. bucket ?gs' k) = insert t (\<Union>k. bucket gs k)"
    by blast
  then have "terms_of ?gs' = insert t (terms_of gs)"
    using terms_of_bucket [OF wf_distinct [OF wf']] terms_of_bucket [OF wf_distinct [OF wf]]
    by simp
  with wf' g show ?thesis by (simp add: append_to_def)
qed

lemma combine_valid:
  assumes a: "\<not> invalid_term n a" and b: "\<not> invalid_term n b"
    and c: "combine_terms a b = Some c"
  shows "\<not> invalid_term n c \<and> c \<noteq> []"
proof -
  from c have ceq: "c = map (\<lambda>(x, y). if x \<noteq> y then CHR ''-'' else x) (zip a b)"
    and one: "length (filter (\<lambda>(x, y). x \<noteq> y) (zip a b)) = 1"
    by (simp_all add: combine_terms_eq split: if_splits)
  from one have "zip a b \<noteq> []" by auto
  then have ne: "c \<noteq> []" by (simp add: ceq)
  have len: "int (length c) = n" using a b by (simp add: ceq invalid_term_def)
  have sa: "set a \<subseteq> set ''01-''"
    using a unfolding invalid_term_def list_all_iff by blast
  have "set c \<subseteq> insert (CHR ''-'') (set a)"
    unfolding ceq by (auto elim!: in_set_zipE)
  with sa have "set c \<subseteq> set ''01-''" by auto
  with len ne show ?thesis unfolding invalid_term_def list_all_iff by blast
qed

lemma count_list_merge_le:
  "length a = length b \<Longrightarrow>
   count_list (map (\<lambda>(x, y). if x \<noteq> y then CHR ''-'' else x) (zip a b)) (CHR ''1'')
     \<le> count_list a (CHR ''1'') \<and>
   count_list (map (\<lambda>(x, y). if x \<noteq> y then CHR ''-'' else x) (zip a b)) (CHR ''1'')
     \<le> count_list b (CHR ''1'')"
  by (induction a b rule: list_induct2) auto

lemma combine_count_ones_le:
  assumes "length a = length b" "combine_terms a b = Some c"
  shows "count_ones c \<le> count_ones a \<and> count_ones c \<le> count_ones b"
proof -
  from assms(2) have ceq: "c = map (\<lambda>(x, y). if x \<noteq> y then CHR ''-'' else x) (zip a b)"
    by (simp add: combine_terms_eq split: if_splits)
  show ?thesis using count_list_merge_le [OF assms(1)] by (simp add: ceq count_ones_def)
qed

section \<open>One pass of the merge loop\<close>

lemma merge_inner_spec:
  assumes "wf_groups n ng" "\<not> invalid_term n t1" "\<forall>t2 \<in> set ts. \<not> invalid_term n t2"
  shows "\<exists>ng'. merge_inner t1 ts (ng, used) =
            Inr (ng', used \<union> {t. \<exists>t2 \<in> set ts. combine_terms t1 t2 \<noteq> None \<and> (t = t1 \<or> t = t2)}) \<and>
          wf_groups n ng' \<and>
          terms_of ng' = terms_of ng \<union> {c. \<exists>t2 \<in> set ts. combine_terms t1 t2 = Some c}"
  using assms
proof (induction ts arbitrary: ng used)
  case Nil
  then show ?case by simp
next
  case (Cons t2 ts)
  show ?case
  proof (cases "combine_terms t1 t2")
    case None
    from Cons.IH [of ng used] Cons.prems obtain ng' where
      "merge_inner t1 ts (ng, used) =
          Inr (ng', used \<union> {t. \<exists>t2 \<in> set ts. combine_terms t1 t2 \<noteq> None \<and> (t = t1 \<or> t = t2)})"
      "wf_groups n ng'"
      "terms_of ng' = terms_of ng \<union> {c. \<exists>t2 \<in> set ts. combine_terms t1 t2 = Some c}"
      by auto
    moreover have "{t. \<exists>x \<in> set (t2 # ts). combine_terms t1 x \<noteq> None \<and> (t = t1 \<or> t = x)}
        = {t. \<exists>x \<in> set ts. combine_terms t1 x \<noteq> None \<and> (t = t1 \<or> t = x)}"
      using None by auto
    moreover have "{c. \<exists>x \<in> set (t2 # ts). combine_terms t1 x = Some c}
        = {c. \<exists>x \<in> set ts. combine_terms t1 x = Some c}"
      using None by auto
    ultimately show ?thesis using None by simp
  next
    case (Some c)
    from Cons.prems have v2: "\<not> invalid_term n t2" by simp
    from combine_valid [OF Cons.prems(2) v2 Some] have vc: "\<not> invalid_term n c" and ne: "c \<noteq> []"
      by simp_all
    from append_to_wf [OF Cons.prems(1) vc] obtain ng1 where
      a: "append_to ng (count_ones c) c = Inr ng1" and wf1: "wf_groups n ng1"
      and t1: "terms_of ng1 = insert c (terms_of ng)" by blast
    from Cons.IH [OF wf1 Cons.prems(2), of "insert t2 (insert t1 used)"] Cons.prems(3)
    obtain ng' where
      r: "merge_inner t1 ts (ng1, insert t2 (insert t1 used)) =
          Inr (ng', insert t2 (insert t1 used) \<union>
             {t. \<exists>t2 \<in> set ts. combine_terms t1 t2 \<noteq> None \<and> (t = t1 \<or> t = t2)})"
      and wf': "wf_groups n ng'"
      and t': "terms_of ng' = terms_of ng1 \<union> {c. \<exists>t2 \<in> set ts. combine_terms t1 t2 = Some c}"
      by auto
    have u: "insert t2 (insert t1 used) \<union>
             {t. \<exists>x \<in> set ts. combine_terms t1 x \<noteq> None \<and> (t = t1 \<or> t = x)}
        = used \<union> {t. \<exists>x \<in> set (t2 # ts). combine_terms t1 x \<noteq> None \<and> (t = t1 \<or> t = x)}"
      using Some by auto
    have m: "terms_of ng1 \<union> {c. \<exists>x \<in> set ts. combine_terms t1 x = Some c}
        = terms_of ng \<union> {c. \<exists>x \<in> set (t2 # ts). combine_terms t1 x = Some c}"
      using Some t1 by auto
    show ?thesis using Some ne a r wf' t' unfolding u m by simp
  qed
qed

lemma wf_bucket_valid: "wf_groups n gs \<Longrightarrow> t \<in> bucket gs k \<Longrightarrow> \<not> invalid_term n t"
  by (simp add: wf_groups_def)

lemma merge_middle_spec:
  assumes "wf_groups n gs" "wf_groups n ng" "0 \<le> i" "i < n"
    "\<forall>t1 \<in> set ts. \<not> invalid_term n t1"
  shows "\<exists>ng'. merge_middle gs i ts (ng, used) =
            Inr (ng', used \<union> {t. \<exists>t1 \<in> set ts. \<exists>t2 \<in> bucket gs (i + 1).
                                   combine_terms t1 t2 \<noteq> None \<and> (t = t1 \<or> t = t2)}) \<and>
          wf_groups n ng' \<and>
          terms_of ng' = terms_of ng \<union>
             {c. \<exists>t1 \<in> set ts. \<exists>t2 \<in> bucket gs (i + 1). combine_terms t1 t2 = Some c}"
  using assms
proof (induction ts arbitrary: ng used)
  case Nil
  then show ?case by simp
next
  case (Cons t1 ts)
  from wf_lookup [OF Cons.prems(1), of "i + 1"] Cons.prems(3,4)
  obtain g2 where g2: "map_of gs (i + 1) = Some g2" by auto
  then have b2: "bucket gs (i + 1) = set g2" by (simp add: bucket_def)
  have v2: "\<forall>t2 \<in> set g2. \<not> invalid_term n t2"
    using wf_bucket_valid [OF Cons.prems(1), of _ "i + 1"] b2 by blast
  from Cons.prems(5) have v1: "\<not> invalid_term n t1" by simp
  from merge_inner_spec [OF Cons.prems(2) v1 v2, of used] obtain ng1 where
    i1: "merge_inner t1 g2 (ng, used) =
          Inr (ng1, used \<union> {t. \<exists>t2 \<in> set g2. combine_terms t1 t2 \<noteq> None \<and> (t = t1 \<or> t = t2)})"
    and wf1: "wf_groups n ng1"
    and t1: "terms_of ng1 = terms_of ng \<union> {c. \<exists>t2 \<in> set g2. combine_terms t1 t2 = Some c}"
    by blast
  let ?u1 = "used \<union> {t. \<exists>t2 \<in> set g2. combine_terms t1 t2 \<noteq> None \<and> (t = t1 \<or> t = t2)}"
  from Cons.prems(5) have vs: "\<forall>t1 \<in> set ts. \<not> invalid_term n t1" by simp
  from Cons.IH [OF Cons.prems(1) wf1 Cons.prems(3,4) vs, of ?u1] obtain ng' where
    r: "merge_middle gs i ts (ng1, ?u1) =
          Inr (ng', ?u1 \<union> {t. \<exists>t1 \<in> set ts. \<exists>t2 \<in> bucket gs (i + 1).
                                   combine_terms t1 t2 \<noteq> None \<and> (t = t1 \<or> t = t2)})"
    and wf': "wf_groups n ng'"
    and t': "terms_of ng' = terms_of ng1 \<union>
             {c. \<exists>t1 \<in> set ts. \<exists>t2 \<in> bucket gs (i + 1). combine_terms t1 t2 = Some c}"
    by blast
  have u: "?u1 \<union> {t. \<exists>x \<in> set ts. \<exists>t2 \<in> bucket gs (i + 1).
                                   combine_terms x t2 \<noteq> None \<and> (t = x \<or> t = t2)}
      = used \<union> {t. \<exists>x \<in> set (t1 # ts). \<exists>t2 \<in> bucket gs (i + 1).
                                   combine_terms x t2 \<noteq> None \<and> (t = x \<or> t = t2)}"
    unfolding b2 by auto
  have m: "terms_of ng1 \<union>
             {c. \<exists>x \<in> set ts. \<exists>t2 \<in> bucket gs (i + 1). combine_terms x t2 = Some c}
      = terms_of ng \<union>
             {c. \<exists>x \<in> set (t1 # ts). \<exists>t2 \<in> bucket gs (i + 1). combine_terms x t2 = Some c}"
    unfolding t1 b2 by auto
  show ?case using g2 i1 r wf' t' unfolding u m by simp
qed

lemma merge_outer_spec:
  assumes "wf_groups n gs" "wf_groups n ng" "\<forall>i \<in> set is. 0 \<le> i \<and> i < n"
  shows "\<exists>ng'. merge_outer gs is (ng, used) =
            Inr (ng', used \<union> {t. \<exists>i \<in> set is. \<exists>t1 \<in> bucket gs i. \<exists>t2 \<in> bucket gs (i + 1).
                                   combine_terms t1 t2 \<noteq> None \<and> (t = t1 \<or> t = t2)}) \<and>
          wf_groups n ng' \<and>
          terms_of ng' = terms_of ng \<union>
             {c. \<exists>i \<in> set is. \<exists>t1 \<in> bucket gs i. \<exists>t2 \<in> bucket gs (i + 1).
                   combine_terms t1 t2 = Some c}"
  using assms
proof (induction "is" arbitrary: ng used)
  case Nil
  then show ?case by simp
next
  case (Cons i "is")
  from Cons.prems(3) have i: "0 \<le> i" "i < n" by simp_all
  from wf_lookup [OF Cons.prems(1), of i] i
  obtain g1 where g1: "map_of gs i = Some g1" by auto
  then have b1: "bucket gs i = set g1" by (simp add: bucket_def)
  have v1: "\<forall>t1 \<in> set g1. \<not> invalid_term n t1"
    using wf_bucket_valid [OF Cons.prems(1), of _ i] b1 by blast
  let ?u1 = "used \<union> {t. \<exists>t1 \<in> set g1. \<exists>t2 \<in> bucket gs (i + 1).
                                   combine_terms t1 t2 \<noteq> None \<and> (t = t1 \<or> t = t2)}"
  from merge_middle_spec [OF Cons.prems(1,2) i v1, of used] obtain ng1 where
    m1: "merge_middle gs i g1 (ng, used) = Inr (ng1, ?u1)"
    and wf1: "wf_groups n ng1"
    and t1: "terms_of ng1 = terms_of ng \<union>
             {c. \<exists>t1 \<in> set g1. \<exists>t2 \<in> bucket gs (i + 1). combine_terms t1 t2 = Some c}"
    by blast
  from Cons.prems(3) have rest: "\<forall>i \<in> set is. 0 \<le> i \<and> i < n" by simp
  from Cons.IH [OF Cons.prems(1) wf1 rest, of ?u1] obtain ng' where
    r: "merge_outer gs is (ng1, ?u1) =
            Inr (ng', ?u1 \<union> {t. \<exists>i \<in> set is. \<exists>t1 \<in> bucket gs i. \<exists>t2 \<in> bucket gs (i + 1).
                                   combine_terms t1 t2 \<noteq> None \<and> (t = t1 \<or> t = t2)})"
    and wf': "wf_groups n ng'"
    and t': "terms_of ng' = terms_of ng1 \<union>
             {c. \<exists>i \<in> set is. \<exists>t1 \<in> bucket gs i. \<exists>t2 \<in> bucket gs (i + 1).
                   combine_terms t1 t2 = Some c}"
    by blast
  have u: "?u1 \<union> {t. \<exists>j \<in> set is. \<exists>t1 \<in> bucket gs j. \<exists>t2 \<in> bucket gs (j + 1).
                                   combine_terms t1 t2 \<noteq> None \<and> (t = t1 \<or> t = t2)}
      = used \<union> {t. \<exists>j \<in> set (i # is). \<exists>t1 \<in> bucket gs j. \<exists>t2 \<in> bucket gs (j + 1).
                                   combine_terms t1 t2 \<noteq> None \<and> (t = t1 \<or> t = t2)}"
    unfolding b1 [symmetric] by auto
  have m: "terms_of ng1 \<union>
             {c. \<exists>j \<in> set is. \<exists>t1 \<in> bucket gs j. \<exists>t2 \<in> bucket gs (j + 1).
                   combine_terms t1 t2 = Some c}
      = terms_of ng \<union>
             {c. \<exists>j \<in> set (i # is). \<exists>t1 \<in> bucket gs j. \<exists>t2 \<in> bucket gs (j + 1).
                   combine_terms t1 t2 = Some c}"
    unfolding t1 b1 [symmetric] by auto
  show ?case using g1 m1 r wf' t' unfolding u m by simp
qed

lemma adjacent_buckets:
  assumes "wf_groups n gs"
  shows "(\<exists>i \<in> set [0..n - 1]. t1 \<in> bucket gs i \<and> t2 \<in> bucket gs (i + 1)) \<longleftrightarrow>
         t1 \<in> terms_of gs \<and> t2 \<in> terms_of gs \<and> count_ones t2 = count_ones t1 + 1"
proof
  assume "\<exists>i \<in> set [0..n - 1]. t1 \<in> bucket gs i \<and> t2 \<in> bucket gs (i + 1)"
  then show "t1 \<in> terms_of gs \<and> t2 \<in> terms_of gs \<and> count_ones t2 = count_ones t1 + 1"
    unfolding wf_bucket_eq [OF assms] by auto
next
  assume r: "t1 \<in> terms_of gs \<and> t2 \<in> terms_of gs \<and> count_ones t2 = count_ones t1 + 1"
  then have "\<not> invalid_term n t1" "\<not> invalid_term n t2"
    using wf_terms_valid [OF assms] by blast+
  then have "0 \<le> count_ones t1" "count_ones t2 \<le> n"
    using valid_count_ones by blast+
  with r have "count_ones t1 \<in> set [0..n - 1]" by simp
  with r show "\<exists>i \<in> set [0..n - 1]. t1 \<in> bucket gs i \<and> t2 \<in> bucket gs (i + 1)"
    unfolding wf_bucket_eq [OF assms] by blast
qed

lemma merge_outer_pass:
  assumes "wf_groups n gs"
  shows "\<exists>ng. merge_outer gs [0..n - 1] (empty_groups n, {}) =
            Inr (ng, used_terms (terms_of gs)) \<and>
          wf_groups n ng \<and> terms_of ng = merged_terms (terms_of gs)"
proof -
  have r: "\<forall>i \<in> set [0..n - 1]. 0 \<le> i \<and> i < n" by simp
  have u: "{} \<union> {t. \<exists>i \<in> set [0..n - 1]. \<exists>t1 \<in> bucket gs i. \<exists>t2 \<in> bucket gs (i + 1).
                                   combine_terms t1 t2 \<noteq> None \<and> (t = t1 \<or> t = t2)}
      = used_terms (terms_of gs)" (is "?L = ?R")
  proof (rule set_eqI)
    fix t
    have "t \<in> ?L \<longleftrightarrow> (\<exists>t1 t2. (\<exists>i \<in> set [0..n - 1]. t1 \<in> bucket gs i \<and> t2 \<in> bucket gs (i + 1)) \<and>
             combine_terms t1 t2 \<noteq> None \<and> (t = t1 \<or> t = t2))"
      by blast
    also have "\<dots> \<longleftrightarrow> t \<in> ?R"
      unfolding adjacent_buckets [OF assms] used_terms_def by blast
    finally show "t \<in> ?L \<longleftrightarrow> t \<in> ?R" .
  qed
  have m: "terms_of (empty_groups n) \<union>
             {c. \<exists>i \<in> set [0..n - 1]. \<exists>t1 \<in> bucket gs i. \<exists>t2 \<in> bucket gs (i + 1).
                   combine_terms t1 t2 = Some c}
      = merged_terms (terms_of gs)" (is "?L = ?R")
  proof (rule set_eqI)
    fix c
    have "c \<in> ?L \<longleftrightarrow> (\<exists>t1 t2. (\<exists>i \<in> set [0..n - 1]. t1 \<in> bucket gs i \<and> t2 \<in> bucket gs (i + 1)) \<and>
             combine_terms t1 t2 = Some c)"
      unfolding terms_of_empty_groups by blast
    also have "\<dots> \<longleftrightarrow> c \<in> ?R"
      unfolding adjacent_buckets [OF assms] merged_terms_def by blast
    finally show "c \<in> ?L \<longleftrightarrow> c \<in> ?R" .
  qed
  from merge_outer_spec [OF assms wf_empty_groups r, of "{}"] show ?thesis
    unfolding u m .
qed

lemma collect_group:
  "fold (\<lambda>t acc'. if t \<notin> used then insert t acc' else acc') ts acc = acc \<union> (set ts - used)"
  by (induction ts arbitrary: acc) auto

lemma collect_primes_eq: "collect_primes gs used primes = primes \<union> (terms_of gs - used)"
proof -
  have "fold (\<lambda>group acc. acc \<union> (set group - used)) gl primes = primes \<union> (set (concat gl) - used)"
    for gl
    by (induction gl arbitrary: primes) auto
  then show ?thesis
    by (simp add: collect_primes_def collect_group terms_of_def)
qed

lemma any_values_iff: "any_values gs \<longleftrightarrow> terms_of gs \<noteq> {}"
  by (auto simp: any_values_def terms_of_def list_ex_iff)

lemma qm_pass_spec:
  assumes "wf_groups n gs"
  shows "\<exists>ng. qm_pass n gs primes =
            Inr (ng, primes \<union> (terms_of gs - used_terms (terms_of gs))) \<and>
          wf_groups n ng \<and> terms_of ng = merged_terms (terms_of gs)"
  using merge_outer_pass [OF assms] by (auto simp: qm_pass_def collect_primes_eq)

lemma group_minterms_spec:
  assumes "wf_groups n gs"
  shows "\<exists>gs'. group_minterms n ms (gs, warned) =
            Inr (gs', warned @ filter (invalid_term n) ms) \<and>
          wf_groups n gs' \<and>
          terms_of gs' = terms_of gs \<union> {t \<in> set ms. \<not> invalid_term n t}"
  using assms
proof (induction ms arbitrary: gs warned)
  case Nil
  then show ?case by simp
next
  case (Cons t ms)
  show ?case
  proof (cases "invalid_term n t")
    case True
    from Cons.IH [OF Cons.prems, of "warned @ [t]"] True show ?thesis by auto
  next
    case False
    from append_to_wf [OF Cons.prems False] obtain gs1 where
      a: "append_to gs (count_ones t) t = Inr gs1" and wf1: "wf_groups n gs1"
      and t1: "terms_of gs1 = insert t (terms_of gs)" by blast
    from Cons.IH [OF wf1, of warned] False a t1 show ?thesis by auto
  qed
qed

lemma group_minterms_initial:
  "\<exists>gs. group_minterms n ms (empty_groups n, []) = Inr (gs, filter (invalid_term n) ms) \<and>
        wf_groups n gs \<and> terms_of gs = {t \<in> set ms. \<not> invalid_term n t}"
  using group_minterms_spec [OF wf_empty_groups, of n ms "[]"]
  by (simp add: terms_of_empty_groups)

lemma merged_count_bound:
  assumes wf: "wf_groups n gs" and b: "\<forall>t \<in> terms_of gs. count_ones t \<le> k"
    and c: "c \<in> merged_terms (terms_of gs)"
  shows "count_ones c \<le> k - 1"
proof -
  from c obtain a b' where ab: "a \<in> terms_of gs" "b' \<in> terms_of gs"
    "count_ones b' = count_ones a + 1" "combine_terms a b' = Some c"
    by (auto simp: merged_terms_def)
  from wf_terms_valid [OF wf ab(1)] wf_terms_valid [OF wf ab(2)]
  have "int (length a) = int (length b')"
    unfolding invalid_term_def by simp
  then have "length a = length b'" by simp
  from combine_count_ones_le [OF this ab(4)] ab(3) b ab(2) show ?thesis by fastforce
qed

lemma qm_loop_within_terminates:
  assumes "wf_groups n gs" "\<forall>t \<in> terms_of gs. count_ones t \<le> int k"
  shows "\<exists>r. qm_loop_within (Suc k) n gs primes = Some (Inr r)"
  using assms
proof (induction k arbitrary: gs primes)
  case 0
  from qm_pass_spec [OF 0(1), of primes] obtain ng where
    p: "qm_pass n gs primes = Inr (ng, primes \<union> (terms_of gs - used_terms (terms_of gs)))"
    and wf: "wf_groups n ng" and t: "terms_of ng = merged_terms (terms_of gs)" by blast
  have "terms_of ng = {}"
  proof (rule ccontr)
    assume "terms_of ng \<noteq> {}"
    then obtain c where c: "c \<in> terms_of ng" by blast
    with merged_count_bound [OF 0(1), of 0 c] 0(2) t have "count_ones c \<le> -1" by simp
    moreover have "0 \<le> count_ones c" using count_ones_bounds by blast
    ultimately show False by simp
  qed
  with p show ?case by (simp add: any_values_iff)
next
  case (Suc k)
  from qm_pass_spec [OF Suc.prems(1), of primes] obtain ng where
    p: "qm_pass n gs primes = Inr (ng, primes \<union> (terms_of gs - used_terms (terms_of gs)))"
    and wf: "wf_groups n ng" and t: "terms_of ng = merged_terms (terms_of gs)" by blast
  have "\<forall>c \<in> terms_of ng. count_ones c \<le> int k"
    using merged_count_bound [OF Suc.prems(1), of "int (Suc k)"] Suc.prems(2) t by fastforce
  from Suc.IH [OF wf this] p show ?case by (simp add: any_values_iff)
qed

lemma qm_loop_within_sound:
  "qm_loop_within k n gs primes = Some r \<Longrightarrow> qm_loop n gs primes = Some r"
proof (induction k arbitrary: gs primes)
  case 0
  then show ?case by simp
next
  case (Suc k)
  show ?case
  proof (cases "qm_pass n gs primes")
    case (Inl e)
    with Suc.prems show ?thesis by (subst qm_loop.simps) simp
  next
    case (Inr p)
    obtain ng primes' where pp: "p = (ng, primes')" by (cases p)
    show ?thesis
    proof (cases "any_values ng")
      case True
      with Suc.prems Inr pp have "qm_loop_within k n ng primes' = Some r" by simp
      from Suc.IH [OF this] True Inr pp show ?thesis by (subst qm_loop.simps) simp
    next
      case False
      with Suc.prems Inr pp show ?thesis by (subst qm_loop.simps) simp
    qed
  qed
qed

lemma initial_count_bound:
  assumes "wf_groups n gs"
  shows "\<forall>t \<in> terms_of gs. count_ones t \<le> int (nat n)"
proof
  fix t assume "t \<in> terms_of gs"
  from valid_count_ones [OF wf_terms_valid [OF assms this]] show "count_ones t \<le> int (nat n)"
    by simp
qed

lemma quine_mccluskey_total:
  "\<exists>gs r. group_minterms n ms (empty_groups n, []) = Inr (gs, filter (invalid_term n) ms) \<and>
        wf_groups n gs \<and> terms_of gs = {t \<in> set ms. \<not> invalid_term n t} \<and>
        qm_loop_within (Suc (nat n)) n gs {} = Some (Inr r) \<and>
        qm_loop n gs {} = Some (Inr r) \<and>
        quine_mccluskey_within (Suc (nat n)) n ms = Some (Inr (sorted_list_of_set r)) \<and>
        quine_mccluskey n ms = Some (Inr (sorted_list_of_set r))"
proof -
  from group_minterms_initial [of n ms] obtain gs where
    g: "group_minterms n ms (empty_groups n, []) = Inr (gs, filter (invalid_term n) ms)"
    and wf: "wf_groups n gs" and t: "terms_of gs = {t \<in> set ms. \<not> invalid_term n t}" by blast
  from qm_loop_within_terminates [OF wf initial_count_bound [OF wf], of "{}"] obtain r where
    r: "qm_loop_within (Suc (nat n)) n gs {} = Some (Inr r)" by blast
  from qm_loop_within_sound [OF r] have l: "qm_loop n gs {} = Some (Inr r)" .
  from g wf t r l show ?thesis
    by (auto simp: quine_mccluskey_def quine_mccluskey_within_def)
qed

section \<open>The loop on sets of terms\<close>

lemma merged_terms_empty [simp]: "merged_terms {} = {}"
  by (simp add: merged_terms_def)

lemma used_terms_empty [simp]: "used_terms {} = {}"
  by (simp add: used_terms_def)

lemma survivors_empty [simp]: "survivors k {} = {}"
  by (induction k) simp_all

lemma qm_loop_within_result:
  assumes "wf_groups n gs" "qm_loop_within k n gs primes = Some res"
  shows "res = Inr (primes \<union> survivors k (terms_of gs))"
  using assms
proof (induction k arbitrary: gs primes)
  case 0
  then show ?case by simp
next
  case (Suc k)
  from qm_pass_spec [OF Suc.prems(1), of primes] obtain ng where
    p: "qm_pass n gs primes = Inr (ng, primes \<union> (terms_of gs - used_terms (terms_of gs)))"
    and wf: "wf_groups n ng" and t: "terms_of ng = merged_terms (terms_of gs)" by blast
  show ?case
  proof (cases "any_values ng")
    case True
    with Suc.prems(2) p have
      "qm_loop_within k n ng (primes \<union> (terms_of gs - used_terms (terms_of gs))) = Some res"
      by simp
    from Suc.IH [OF wf this] show ?thesis by (simp add: t Un_assoc)
  next
    case False
    then have "merged_terms (terms_of gs) = {}" using t by (simp add: any_values_iff)
    with Suc.prems(2) p False show ?thesis by auto
  qed
qed

lemma finite_survivors: "finite T \<Longrightarrow> finite (survivors k T)"
proof (induction k arbitrary: T)
  case 0
  then show ?case by simp
next
  case (Suc k)
  have "merged_terms T \<subseteq> (\<lambda>(a, b). the (combine_terms a b)) ` (T \<times> T)"
    by (force simp: merged_terms_def)
  with Suc.prems have "finite (merged_terms T)"
    by (meson finite_SigmaI finite_imageI finite_subset)
  with Suc show ?case by simp
qed

lemma quine_mccluskey_eq:
  "quine_mccluskey n ms =
     Some (Inr (sorted_list_of_set (survivors (Suc (nat n)) (valid_terms n ms))))"
  and quine_mccluskey_within_eq:
  "quine_mccluskey_within (Suc (nat n)) n ms =
     Some (Inr (sorted_list_of_set (survivors (Suc (nat n)) (valid_terms n ms))))"
proof -
  from quine_mccluskey_total [of n ms] obtain gs r where
    wf: "wf_groups n gs" and t: "terms_of gs = {t \<in> set ms. \<not> invalid_term n t}"
    and w: "qm_loop_within (Suc (nat n)) n gs {} = Some (Inr r)"
    and q: "quine_mccluskey n ms = Some (Inr (sorted_list_of_set r))"
    and q': "quine_mccluskey_within (Suc (nat n)) n ms = Some (Inr (sorted_list_of_set r))"
    by blast
  from qm_loop_within_result [OF wf w] have "r = survivors (Suc (nat n)) (valid_terms n ms)"
    by (simp add: t valid_terms_def)
  with q q' show "quine_mccluskey n ms =
     Some (Inr (sorted_list_of_set (survivors (Suc (nat n)) (valid_terms n ms))))"
    "quine_mccluskey_within (Suc (nat n)) n ms =
     Some (Inr (sorted_list_of_set (survivors (Suc (nat n)) (valid_terms n ms))))"
    by simp_all
qed

lemma finite_result: "finite (survivors k (valid_terms n ms))"
  by (rule finite_survivors) (simp add: valid_terms_def)

lemma generation_wf: "generation n ms gs \<Longrightarrow> wf_groups n gs"
proof (induction rule: generation.induct)
  case (initial gs warned)
  with group_minterms_initial [of n ms] show ?case by auto
next
  case (step gs primes next_groups primes')
  with qm_pass_spec [OF step.IH, of primes] show ?case by auto
qed

lemma merged_valid:
  assumes "\<forall>t \<in> T. \<not> invalid_term n t" "c \<in> merged_terms T"
  shows "\<not> invalid_term n c"
proof -
  from assms(2) obtain a b where "a \<in> T" "b \<in> T" "combine_terms a b = Some c"
    unfolding merged_terms_def by blast
  with assms(1) combine_valid [of n a b c] show ?thesis by blast
qed

lemma merged_bound:
  assumes v: "\<forall>t \<in> T. \<not> invalid_term n t" and b: "\<forall>t \<in> T. count_ones t \<le> k"
    and c: "c \<in> merged_terms T"
  shows "count_ones c \<le> k - 1"
proof -
  from c obtain a b' where ab: "a \<in> T" "b' \<in> T"
    "count_ones b' = count_ones a + 1" "combine_terms a b' = Some c"
    by (auto simp: merged_terms_def)
  from v ab(1,2) have "int (length a) = int (length b')"
    unfolding invalid_term_def by simp
  then have "length a = length b'" by simp
  from combine_count_ones_le [OF this ab(4)] have "count_ones c \<le> count_ones a" by simp
  moreover from b ab(2) have "count_ones b' \<le> k" by simp
  ultimately show ?thesis using ab(3) by simp
qed

lemma covers_refl: "covers t t"
  by (simp add: covers_def list_all2_same)

lemma covers_trans: "covers a b \<Longrightarrow> covers b c \<Longrightarrow> covers a c"
  unfolding covers_def
  by (induction a b arbitrary: c rule: list_all2_induct) (auto simp: list_all2_Cons1)

lemma combine_covers:
  assumes "length a = length b" "combine_terms a b = Some c"
  shows "covers c a \<and> covers c b"
proof -
  from assms(2) have ceq: "c = map (\<lambda>(x, y). if x \<noteq> y then CHR ''-'' else x) (zip a b)"
    by (simp add: combine_terms_eq split: if_splits)
  from assms(1) show ?thesis unfolding ceq covers_def
    by (induction a b rule: list_induct2) auto
qed

lemma survivors_cover:
  assumes "\<forall>t \<in> T. \<not> invalid_term n t" "\<forall>t \<in> T. count_ones t \<le> int k" "m \<in> T"
  shows "\<exists>t \<in> survivors (Suc k) T. covers t m"
  using assms
proof (induction k arbitrary: T m)
  case 0
  have "m \<notin> used_terms T"
  proof
    assume "m \<in> used_terms T"
    then obtain a b where ab: "a \<in> T" "b \<in> T" "count_ones b = count_ones a + 1"
      by (auto simp: used_terms_def)
    from 0(2) ab(2) have "count_ones b \<le> int 0" by blast
    moreover have "0 \<le> count_ones a" using count_ones_bounds by blast
    ultimately show False using ab(3) by simp
  qed
  with 0(3) covers_refl show ?case by auto
next
  case (Suc k)
  show ?case
  proof (cases "m \<in> used_terms T")
    case False
    with Suc.prems(3) covers_refl show ?thesis by auto
  next
    case True
    then obtain a b c where ab: "a \<in> T" "b \<in> T" "count_ones b = count_ones a + 1"
      "combine_terms a b = Some c" "m = a \<or> m = b"
      by (auto simp: used_terms_def)
    then have cm: "c \<in> merged_terms T" by (auto simp: merged_terms_def)
    from Suc.prems(1) ab(1,2) have "int (length a) = int (length b)"
      unfolding invalid_term_def by simp
    then have "length a = length b" by simp
    from combine_covers [OF this ab(4)] ab(5) have c: "covers c m" by auto
    have v: "\<forall>t \<in> merged_terms T. \<not> invalid_term n t"
      using merged_valid [OF Suc.prems(1)] by blast
    have b: "\<forall>t \<in> merged_terms T. count_ones t \<le> int k"
    proof
      fix t assume "t \<in> merged_terms T"
      from merged_bound [OF Suc.prems(1,2) this] show "count_ones t \<le> int k" by simp
    qed
    from Suc.IH [OF v b cm] obtain t where
      "t \<in> survivors (Suc k) (merged_terms T)" "covers t c" by blast
    with c covers_trans show ?thesis by auto
  qed
qed

lemma valid_terms_valid: "\<forall>t \<in> valid_terms n ms. \<not> invalid_term n t"
  by (simp add: valid_terms_def)

lemma valid_terms_bound: "\<forall>t \<in> valid_terms n ms. count_ones t \<le> int (nat n)"
proof
  fix t assume "t \<in> valid_terms n ms"
  then have "\<not> invalid_term n t" by (simp add: valid_terms_def)
  from valid_count_ones [OF this] show "count_ones t \<le> int (nat n)" by simp
qed

lemma survivors_valid:
  assumes "\<forall>t \<in> T. \<not> invalid_term n t"
  shows "\<forall>t \<in> survivors k T. \<not> invalid_term n t"
  using assms
proof (induction k arbitrary: T)
  case 0
  then show ?case by simp
next
  case (Suc k)
  have "\<forall>t \<in> merged_terms T. \<not> invalid_term n t"
    using merged_valid [OF Suc.prems] by blast
  from Suc.IH [OF this] Suc.prems show ?case by auto
qed

lemma combine_terms_sym: "combine_terms a b = None \<longleftrightarrow> combine_terms b a = None"
proof -
  have "length (filter (\<lambda>(x, y). x \<noteq> y) (zip a b)) = length (filter (\<lambda>(x, y). x \<noteq> y) (zip b a))"
  proof (induction a arbitrary: b)
    case Nil
    then show ?case by simp
  next
    case (Cons x a)
    then show ?case by (cases b) auto
  qed
  then show ?thesis by (simp add: combine_terms_eq)
qed

lemma group_minterms_filter:
  "group_minterms n ms (gs, warned) = Inr (gs', warned') \<Longrightarrow>
   group_minterms n (filter (\<lambda>t. \<not> invalid_term n t) ms) (gs, w) = Inr (gs', w)"
proof (induction ms arbitrary: gs warned)
  case Nil
  then show ?case by simp
next
  case (Cons t ms)
  then show ?case by (auto split: if_splits sum.splits)
qed

lemma result_valid: "\<forall>t \<in> survivors k (valid_terms n ms). \<not> invalid_term n t"
  using survivors_valid valid_terms_valid by blast

section \<open>Generations as sets of cubes\<close>

lemma valid_iff:
  "\<not> invalid_term n t \<longleftrightarrow> int (length t) = n \<and> set t \<subseteq> {CHR ''0'', CHR ''1'', CHR ''-''}"
  by (auto simp: invalid_term_def list_all_iff)

lemma zip_same_filter: "filter (\<lambda>(x, y). x \<noteq> y) (zip xs xs) = []"
  by (induction xs) auto

lemma zip_same_map: "map (\<lambda>(x, y). if x \<noteq> y then CHR ''-'' else x) (zip xs xs) = xs"
  by (induction xs) auto

lemma combine_terms_at:
  "x \<noteq> y \<Longrightarrow> combine_terms (xs @ x # ys) (xs @ y # ys) = Some (xs @ CHR ''-'' # ys)"
  by (simp add: combine_terms_eq zip_append zip_same_filter zip_same_map)

lemma no_diff_equal:
  "length a = length b \<Longrightarrow> filter (\<lambda>(x, y). x \<noteq> y) (zip a b) = [] \<Longrightarrow>
   a = b \<and> map (\<lambda>(x, y). if x \<noteq> y then CHR ''-'' else x) (zip a b) = a"
  by (induction a b rule: list_induct2) (auto split: if_splits)

lemma one_diff_split:
  "length a = length b \<Longrightarrow> length (filter (\<lambda>(x, y). x \<noteq> y) (zip a b)) = 1 \<Longrightarrow>
   \<exists>xs x y ys. a = xs @ x # ys \<and> b = xs @ y # ys \<and> x \<noteq> y \<and>
     map (\<lambda>(x, y). if x \<noteq> y then CHR ''-'' else x) (zip a b) = xs @ CHR ''-'' # ys"
proof (induction a b rule: list_induct2)
  case Nil
  then show ?case by simp
next
  case (Cons x a y b)
  show ?case
  proof (cases "x = y")
    case True
    with Cons.prems have "length (filter (\<lambda>(x, y). x \<noteq> y) (zip a b)) = 1" by simp
    from Cons.IH [OF this] obtain xs x' y' ys where
      d: "a = xs @ x' # ys" "b = xs @ y' # ys" "x' \<noteq> y'"
      "map (\<lambda>(x, y). if x \<noteq> y then CHR ''-'' else x) (zip a b) = xs @ CHR ''-'' # ys"
      by blast
    have "x # a = (x # xs) @ x' # ys" "y # b = (x # xs) @ y' # ys"
      using d True by simp_all
    moreover have
      "map (\<lambda>(x, y). if x \<noteq> y then CHR ''-'' else x) (zip (x # a) (y # b))
         = (x # xs) @ CHR ''-'' # ys"
      using d(4) True by simp
    ultimately show ?thesis using d(3) by blast
  next
    case False
    with Cons.prems have "filter (\<lambda>(x, y). x \<noteq> y) (zip a b) = []" by simp
    from no_diff_equal [OF Cons.hyps this] have
      e: "a = b" "map (\<lambda>(x, y). if x \<noteq> y then CHR ''-'' else x) (zip a b) = a" by blast+
    have "x # a = [] @ x # a" "y # b = [] @ y # a" using e by simp_all
    moreover have
      "map (\<lambda>(x, y). if x \<noteq> y then CHR ''-'' else x) (zip (x # a) (y # b))
         = [] @ CHR ''-'' # a"
      using e False by (simp add: zip_same_map)
    ultimately show ?thesis using False by blast
  qed
qed

lemma combine_terms_split:
  assumes "length a = length b" "combine_terms a b = Some c"
  shows "\<exists>xs x y ys. a = xs @ x # ys \<and> b = xs @ y # ys \<and> x \<noteq> y \<and> c = xs @ CHR ''-'' # ys"
proof -
  from assms(2) have "length (filter (\<lambda>(x, y). x \<noteq> y) (zip a b)) = 1"
    and "c = map (\<lambda>(x, y). if x \<noteq> y then CHR ''-'' else x) (zip a b)"
    by (simp_all add: combine_terms_eq split: if_splits)
  with one_diff_split [OF assms(1)] show ?thesis by force
qed

lemma covers_pure:
  "CHR ''-'' \<notin> set t \<Longrightarrow> covers t m \<Longrightarrow> m = t"
  unfolding covers_def
proof (induction t arbitrary: m)
  case Nil
  then show ?case by simp
next
  case (Cons x t)
  then show ?case by (auto simp: list_all2_Cons1)
qed

lemma covers_at:
  "covers (xs @ x # ys) m \<longleftrightarrow>
     (\<exists>m1 z m2. m = m1 @ z # m2 \<and> length m1 = length xs \<and> covers xs m1 \<and>
        (x = CHR ''-'' \<or> x = z) \<and> covers ys m2)"
proof
  assume "covers (xs @ x # ys) m"
  then obtain us vs where uv: "m = us @ vs" "length us = length xs"
    "list_all2 (\<lambda>x y. x = CHR ''-'' \<or> x = y) xs us"
    "list_all2 (\<lambda>x y. x = CHR ''-'' \<or> x = y) (x # ys) vs"
    unfolding covers_def list_all2_append1 by blast
  from uv(4) obtain z zs where "vs = z # zs" "x = CHR ''-'' \<or> x = z"
    "list_all2 (\<lambda>x y. x = CHR ''-'' \<or> x = y) ys zs"
    unfolding list_all2_Cons1 by blast
  with uv show "\<exists>m1 z m2. m = m1 @ z # m2 \<and> length m1 = length xs \<and> covers xs m1 \<and>
        (x = CHR ''-'' \<or> x = z) \<and> covers ys m2"
    unfolding covers_def by blast
next
  assume "\<exists>m1 z m2. m = m1 @ z # m2 \<and> length m1 = length xs \<and> covers xs m1 \<and>
        (x = CHR ''-'' \<or> x = z) \<and> covers ys m2"
  then obtain m1 z m2 where "m = m1 @ z # m2" "length xs = length m1" "covers xs m1"
    "x = CHR ''-'' \<or> x = z" "covers ys m2" by auto
  then show "covers (xs @ x # ys) m"
    unfolding covers_def by (simp add: list_all2_append)
qed

lemma dashes_at:
  "dashes (xs @ x # ys) = dashes xs + (if x = CHR ''-'' then 1 else 0) + dashes ys"
  by (simp add: dashes_def)

lemma count_ones_at:
  "count_ones (xs @ x # ys) = count_ones xs + (if x = CHR ''1'' then 1 else 0) + count_ones ys"
  by (simp add: count_ones_def)

lemma valid_at:
  "\<not> invalid_term n (xs @ x # ys) \<longleftrightarrow>
     int (length xs) + 1 + int (length ys) = n \<and> set xs \<subseteq> {CHR ''0'', CHR ''1'', CHR ''-''} \<and>
     x \<in> {CHR ''0'', CHR ''1'', CHR ''-''} \<and> set ys \<subseteq> {CHR ''0'', CHR ''1'', CHR ''-''}"
  by (auto simp: valid_iff)

lemma covers_widen:
  "covers (xs @ x # ys) m \<Longrightarrow> covers (xs @ CHR ''-'' # ys) m"
  unfolding covers_at by blast

lemma implicant_half:
  "implicant M (xs @ CHR ''-'' # ys) \<Longrightarrow> implicant M (xs @ x # ys)"
  unfolding implicant_def using covers_widen by blast

lemma implicant_merge:
  assumes a: "implicant M (xs @ CHR ''0'' # ys)" and b: "implicant M (xs @ CHR ''1'' # ys)"
  shows "implicant M (xs @ CHR ''-'' # ys)"
  unfolding implicant_def
proof (intro allI impI)
  fix m assume m: "set m \<subseteq> {CHR ''0'', CHR ''1''} \<and> covers (xs @ CHR ''-'' # ys) m"
  then obtain m1 z m2 where d: "m = m1 @ z # m2" "length m1 = length xs" "covers xs m1"
    "covers ys m2" unfolding covers_at by blast
  from m d(1) have "z = CHR ''0'' \<or> z = CHR ''1''" by simp
  then show "m \<in> M"
  proof
    assume "z = CHR ''0''"
    with d have "covers (xs @ CHR ''0'' # ys) m" unfolding covers_at by blast
    with a m show ?thesis unfolding implicant_def by blast
  next
    assume "z = CHR ''1''"
    with d have "covers (xs @ CHR ''1'' # ys) m" unfolding covers_at by blast
    with b m show ?thesis unfolding implicant_def by blast
  qed
qed

lemma merged_cubes_subset:
  assumes "c \<in> merged_terms (cubes n M j)"
  shows "c \<in> cubes n M (Suc j)"
proof -
  from assms obtain a b where ab: "a \<in> cubes n M j" "b \<in> cubes n M j"
    "count_ones b = count_ones a + 1" "combine_terms a b = Some c"
    unfolding merged_terms_def by blast
  then have va: "\<not> invalid_term n a" and vb: "\<not> invalid_term n b"
    and da: "dashes a = j" and db: "dashes b = j"
    and ia: "implicant M a" and ib: "implicant M b"
    unfolding cubes_def by simp_all
  from va vb have "int (length a) = int (length b)" unfolding invalid_term_def by simp
  then have "length a = length b" by simp
  from combine_terms_split [OF this ab(4)] obtain xs x y ys where
    s: "a = xs @ x # ys" "b = xs @ y # ys" "x \<noteq> y" "c = xs @ CHR ''-'' # ys" by blast
  from ab(3) have y: "y = CHR ''1''" and x1: "x \<noteq> CHR ''1''"
    unfolding s count_ones_at by (simp_all split: if_splits)
  from da db y have "x \<noteq> CHR ''-''"
    unfolding s dashes_at by (simp split: if_splits)
  with va x1 have x: "x = CHR ''0''" unfolding s valid_at by blast
  have "\<not> invalid_term n c" using combine_valid [OF va vb ab(4)] by simp
  moreover have "dashes c = Suc j" using da x unfolding s dashes_at by simp
  moreover have "implicant M c"
    using implicant_merge [of M xs ys] ia ib unfolding s x y by simp
  ultimately show ?thesis unfolding cubes_def by simp
qed

lemma dashes_split:
  assumes "dashes c = Suc j"
  shows "\<exists>xs ys. c = xs @ CHR ''-'' # ys"
proof -
  from assms have "count_list c (CHR ''-'') \<noteq> 0" by (simp add: dashes_def)
  then have "CHR ''-'' \<in> set c" by (simp add: count_list_0_iff)
  then show ?thesis by (rule split_list)
qed

lemma cubes_subset_merged:
  assumes "c \<in> cubes n M (Suc j)"
  shows "c \<in> merged_terms (cubes n M j)"
proof -
  from assms have vc: "\<not> invalid_term n c" and dc: "dashes c = Suc j" and ic: "implicant M c"
    unfolding cubes_def by simp_all
  from dashes_split [OF dc] obtain xs ys where c: "c = xs @ CHR ''-'' # ys" by blast
  let ?a = "xs @ CHR ''0'' # ys" and ?b = "xs @ CHR ''1'' # ys"
  have "?a \<in> cubes n M j"
    using vc dc implicant_half [of M xs ys "CHR ''0''"] ic
    by (simp add: c cubes_def valid_at dashes_at)
  moreover have "?b \<in> cubes n M j"
    using vc dc implicant_half [of M xs ys "CHR ''1''"] ic
    by (simp add: c cubes_def valid_at dashes_at)
  moreover have "count_ones ?b = count_ones ?a + 1"
    unfolding count_ones_at by simp
  moreover have "combine_terms ?a ?b = Some c"
    unfolding c by (rule combine_terms_at) simp
  ultimately show ?thesis unfolding merged_terms_def by blast
qed

lemma merged_cubes: "merged_terms (cubes n M j) = cubes n M (Suc j)"
  using merged_cubes_subset cubes_subset_merged by blast

lemma cubes_zero:
  assumes "\<forall>t \<in> M. \<not> invalid_term n t \<and> CHR ''-'' \<notin> set t"
  shows "cubes n M 0 = M"
proof
  show "cubes n M 0 \<subseteq> M"
  proof
    fix c assume "c \<in> cubes n M 0"
    then have vc: "\<not> invalid_term n c" and dc: "dashes c = 0" and ic: "implicant M c"
      unfolding cubes_def by simp_all
    from dc have "CHR ''-'' \<notin> set c" by (simp add: dashes_def count_list_0_iff)
    with vc have "set c \<subseteq> {CHR ''0'', CHR ''1''}" unfolding valid_iff by blast
    with ic covers_refl [of c] show "c \<in> M" unfolding implicant_def by blast
  qed
  show "M \<subseteq> cubes n M 0"
  proof
    fix t assume t: "t \<in> M"
    with assms have vt: "\<not> invalid_term n t" and nd: "CHR ''-'' \<notin> set t" by blast+
    from nd have "dashes t = 0" by (simp add: dashes_def count_list_0_iff)
    moreover have "implicant M t"
      unfolding implicant_def using covers_pure [OF nd] t by blast
    ultimately show "t \<in> cubes n M 0" using vt unfolding cubes_def by simp
  qed
qed

lemma generations_cubes:
  assumes "\<forall>t \<in> M. \<not> invalid_term n t \<and> CHR ''-'' \<notin> set t"
  shows "(merged_terms ^^ j) M = cubes n M j"
proof (induction j)
  case 0
  show ?case using cubes_zero [OF assms] by simp
next
  case (Suc j)
  then show ?case by (simp add: merged_cubes)
qed

lemma survivors_generations:
  "survivors k T = (\<Union>j<k. (merged_terms ^^ j) T - used_terms ((merged_terms ^^ j) T))"
proof (induction k arbitrary: T)
  case 0
  show ?case by simp
next
  case (Suc k)
  have "(\<Union>j<Suc k. (merged_terms ^^ j) T - used_terms ((merged_terms ^^ j) T))
      = (T - used_terms T) \<union>
        (\<Union>j<k. (merged_terms ^^ Suc j) T - used_terms ((merged_terms ^^ Suc j) T))"
    unfolding lessThan_Suc_eq_insert_0 by (simp add: image_image del: funpow.simps)
  also have "\<dots> = (T - used_terms T) \<union>
        (\<Union>j<k. (merged_terms ^^ j) (merged_terms T) - used_terms ((merged_terms ^^ j) (merged_terms T)))"
    by (simp only: funpow_Suc_right comp_apply)
  finally show ?case using Suc.IH [of "merged_terms T"] by simp
qed

lemma survivors_not_combinable:
  assumes a: "a \<in> cubes n M i" "a \<notin> used_terms (cubes n M i)"
    and b: "b \<in> cubes n M j" "b \<notin> used_terms (cubes n M j)"
    and ones: "count_ones b = count_ones a + 1"
  shows "combine_terms a b = None"
proof (rule ccontr)
  assume "combine_terms a b \<noteq> None"
  then obtain c where c: "combine_terms a b = Some c" by blast
  from a(1) b(1) have va: "\<not> invalid_term n a" and vb: "\<not> invalid_term n b"
    and da: "dashes a = i" and db: "dashes b = j" and ia: "implicant M a"
    unfolding cubes_def by simp_all
  from va vb have "int (length a) = int (length b)" unfolding invalid_term_def by simp
  then have "length a = length b" by simp
  from combine_terms_split [OF this c] obtain xs x y ys where
    s: "a = xs @ x # ys" "b = xs @ y # ys" "x \<noteq> y" by blast
  from ones have y: "y = CHR ''1''" and x1: "x \<noteq> CHR ''1''"
    unfolding s count_ones_at by (simp_all split: if_splits)
  from va x1 have "x = CHR ''0'' \<or> x = CHR ''-''" unfolding s valid_at by blast
  then show False
  proof
    assume x: "x = CHR ''0''"
    from da db have "i = j" unfolding s dashes_at x y by simp
    with a(1) b(1) ones c have "a \<in> used_terms (cubes n M i)"
      unfolding used_terms_def by blast
    with a(2) show False by simp
  next
    assume x: "x = CHR ''-''"
    let ?b0 = "xs @ CHR ''0'' # ys"
    have "?b0 \<in> cubes n M j"
      using vb db ia implicant_half [of M xs ys "CHR ''0''"]
      by (simp add: s x y cubes_def valid_at dashes_at)
    moreover have "count_ones b = count_ones ?b0 + 1"
      unfolding s y count_ones_at by simp
    moreover have "combine_terms ?b0 b \<noteq> None"
      unfolding s y by (simp add: combine_terms_at)
    ultimately have "b \<in> used_terms (cubes n M j)"
      using b(1) unfolding used_terms_def by blast
    with b(2) show False by simp
  qed
qed

lemma survivors_closed:
  assumes pure: "\<forall>t \<in> M. \<not> invalid_term n t \<and> CHR ''-'' \<notin> set t"
  shows "merged_terms (survivors k M) = {}" and "used_terms (survivors k M) = {}"
proof -
  have none: "combine_terms a b = None"
    if "a \<in> survivors k M" "b \<in> survivors k M" "count_ones b = count_ones a + 1" for a b
  proof -
    have g: "survivors k M = (\<Union>j<k. cubes n M j - used_terms (cubes n M j))"
      unfolding survivors_generations generations_cubes [OF pure] ..
    from that(1) obtain i where ai: "a \<in> cubes n M i" "a \<notin> used_terms (cubes n M i)"
      unfolding g by blast
    from that(2) obtain j where bj: "b \<in> cubes n M j" "b \<notin> used_terms (cubes n M j)"
      unfolding g by blast
    from survivors_not_combinable [OF ai bj that(3)] show ?thesis .
  qed
  show "merged_terms (survivors k M) = {}"
  proof (rule ccontr)
    assume "merged_terms (survivors k M) \<noteq> {}"
    then obtain c where "c \<in> merged_terms (survivors k M)" by blast
    then obtain a b where "a \<in> survivors k M" "b \<in> survivors k M"
      "count_ones b = count_ones a + 1" "combine_terms a b = Some c"
      unfolding merged_terms_def by blast
    with none [of a b] show False by simp
  qed
  show "used_terms (survivors k M) = {}"
  proof (rule ccontr)
    assume "used_terms (survivors k M) \<noteq> {}"
    then obtain t where "t \<in> used_terms (survivors k M)" by blast
    then obtain a b where "a \<in> survivors k M" "b \<in> survivors k M"
      "count_ones b = count_ones a + 1" "combine_terms a b \<noteq> None"
      unfolding used_terms_def by blast
    with none [of a b] show False by simp
  qed
qed

lemma survivors_fixed:
  assumes "\<forall>t \<in> M. \<not> invalid_term n t \<and> CHR ''-'' \<notin> set t"
  shows "survivors (Suc k') (survivors k M) = survivors k M"
  using survivors_closed [OF assms, of k] by simp

section \<open>Writing and re-reading the PLA text\<close>
























section \<open>The properties of the specification\<close>

text \<open>
  C1, as the code has it. \<open>combine_terms\<close> walks \<open>zip(term1, term2)\<close>, which stops at
  the end of the shorter string, so two terms of different lengths are merged when their
  common prefix differs in exactly one position: the claim's "if and only if identical
  length" fails.
\<close>

theorem combine_terms_unequal_length:
  "combine_terms ''0'' ''11'' = Some ''-'' \<and> length ''0'' \<noteq> length ''11''"
  by (simp add: combine_terms_def)

text \<open>
  C1, amended: for two terms of identical length, \<open>combine_terms\<close> returns a term if and
  only if they differ in exactly one position; the returned term has their length, has
  \<open>-\<close> at the differing position and the common symbol of the two inputs at every other
  position.
\<close>

theorem combine_terms_equal_length:
  assumes "length a = length b"
  shows "(combine_terms a b \<noteq> None \<longleftrightarrow> (\<exists>!i. i < length a \<and> a ! i \<noteq> b ! i)) \<and>
         (\<forall>c. combine_terms a b = Some c \<longrightarrow>
            length c = length a \<and>
            (\<forall>i<length a. if a ! i \<noteq> b ! i then c ! i = CHR ''-''
                          else c ! i = a ! i \<and> c ! i = b ! i))"
proof -
  have fin: "finite {i. i < length a \<and> a ! i \<noteq> b ! i}" by simp
  have "combine_terms a b \<noteq> None \<longleftrightarrow> card {i. i < length a \<and> a ! i \<noteq> b ! i} = 1"
    using assms by (simp add: combine_terms_eq diff_count_card)
  also have "\<dots> \<longleftrightarrow> (\<exists>!i. i < length a \<and> a ! i \<noteq> b ! i)"
    using card_one_iff_ex1 [OF fin] by simp
  finally have first: "combine_terms a b \<noteq> None \<longleftrightarrow> (\<exists>!i. i < length a \<and> a ! i \<noteq> b ! i)" .
  have second: "length c = length a \<and>
            (\<forall>i<length a. if a ! i \<noteq> b ! i then c ! i = CHR ''-''
                          else c ! i = a ! i \<and> c ! i = b ! i)"
    if "combine_terms a b = Some c" for c
  proof -
    from that have c: "c = map (\<lambda>(x, y). if x \<noteq> y then CHR ''-'' else x) (zip a b)"
      by (simp add: combine_terms_eq split: if_splits)
    show ?thesis using assms by (simp add: c)
  qed
  from first second show ?thesis by blast
qed

theorem combine_terms_equal_length_witness:
  "length ''00'' = length ''01'' \<and> combine_terms ''00'' ''01'' = Some ''0-'' \<and>
   (\<exists>!i. i < length ''00'' \<and> ''00'' ! i \<noteq> ''01'' ! i)"
proof -
  have v: "combine_terms ''00'' ''01'' = Some ''0-''" by code_simp
  have l: "length ''00'' = length ''01''" by simp
  from combine_terms_equal_length [OF l] v show ?thesis by simp
qed

text \<open>
  C2: the result depends only on the multiset of minterms and the width. For any two
  minterm lists that are permutations of each other, \<open>quine_mccluskey\<close> returns (without
  error) the same list, and that list is sorted and free of duplicates.
\<close>

theorem quine_mccluskey_order_independent:
  assumes "mset minterms1 = mset minterms2"
  shows "\<exists>r. quine_mccluskey n minterms1 = Some (Inr r) \<and>
             quine_mccluskey n minterms2 = Some (Inr r) \<and> sorted r \<and> distinct r"
proof -
  from assms have "set minterms1 = set minterms2" by (rule mset_eq_setD)
  then have "valid_terms n minterms1 = valid_terms n minterms2"
    by (simp add: valid_terms_def)
  then show ?thesis
    using quine_mccluskey_eq [of n minterms1] quine_mccluskey_eq [of n minterms2] by simp
qed

theorem quine_mccluskey_order_independent_witness:
  "mset [''00'', ''01'', ''11''] = mset [''11'', ''00'', ''01''] \<and>
   quine_mccluskey 2 [''00'', ''01'', ''11''] = Some (Inr [''-1'', ''0-'']) \<and>
   quine_mccluskey 2 [''11'', ''00'', ''01''] = Some (Inr [''-1'', ''0-''])"
proof -
  have m: "mset [''00'', ''01'', ''11''] = mset [''11'', ''00'', ''01'']" by simp
  have v: "quine_mccluskey 2 [''00'', ''01'', ''11''] = Some (Inr [''-1'', ''0-''])"
    by code_simp
  from quine_mccluskey_order_independent [OF m, of 2] v m show ?thesis by auto
qed

text \<open>
  C3, as the code has it. With \<open>num_inputs = 1\<close> and the minterms \<open>0\<close> and \<open>1\<close> the first
  pass merges the two terms, so the loop does not reach \<open>break\<close> within 1 pass of its
  body; it reaches it in the second pass.
\<close>

theorem quine_mccluskey_needs_more_than_n_passes:
  "quine_mccluskey_within 1 1 [''0'', ''1''] = None \<and>
   quine_mccluskey_within 2 1 [''0'', ''1''] = Some (Inr [''-''])"
  by code_simp

text \<open>
  C3, amended: for every width and every list of minterms, the loop of
  \<open>quine_mccluskey\<close> terminates, and it does so within at most \<open>max(N, 0) + 1\<close> executions
  of its body (at most \<open>N\<close> passes that merge something, and the pass that finds nothing
  to merge and breaks).
\<close>

theorem quine_mccluskey_pass_bound:
  "\<exists>r. quine_mccluskey n minterms = Some (Inr r) \<and>
       quine_mccluskey_within (nat n + 1) n minterms = Some (Inr r)"
  using quine_mccluskey_eq [of n minterms] quine_mccluskey_within_eq [of n minterms] by simp

theorem quine_mccluskey_pass_bound_witness:
  "quine_mccluskey 1 [''0'', ''1''] = Some (Inr [''-'']) \<and>
   quine_mccluskey_within (nat 1 + 1) 1 [''0'', ''1''] = Some (Inr [''-''])"
proof -
  have v: "quine_mccluskey 1 [''0'', ''1''] = Some (Inr [''-''])" by code_simp
  from quine_mccluskey_pass_bound [of 1 "[''0'', ''1'']"] v show ?thesis by auto
qed

text \<open>
  C4: the absorption invariant. In every pass of a run, if \<open>t\<close> is in group \<open>i\<close> and \<open>s\<close> in
  group \<open>i + 1\<close> of the current generation and neither is in \<open>used\<close> at the end of the
  pass, then \<open>combine_terms\<close> returns none for them (in either order).
\<close>

theorem absorption_invariant:
  assumes "generation n minterms gs"
    and "merge_outer gs [0..n - 1] (empty_groups n, {}) = Inr (next_groups, used)"
    and "map_of gs i = Some group_i" and "map_of gs (i + 1) = Some group_j"
    and "t \<in> set group_i" and "s \<in> set group_j"
    and "t \<notin> used" and "s \<notin> used"
  shows "combine_terms t s = None \<and> combine_terms s t = None"
proof -
  from generation_wf [OF assms(1)] have wf: "wf_groups n gs" .
  from merge_outer_pass [OF wf] assms(2) have u: "used = used_terms (terms_of gs)" by auto
  from assms(3,5) have "t \<in> bucket gs i" by (simp add: bucket_def)
  moreover from assms(4,6) have "s \<in> bucket gs (i + 1)" by (simp add: bucket_def)
  ultimately have ts: "t \<in> terms_of gs" "s \<in> terms_of gs" "count_ones s = count_ones t + 1"
    unfolding wf_bucket_eq [OF wf] by auto
  have "combine_terms t s = None"
  proof (rule ccontr)
    assume "combine_terms t s \<noteq> None"
    with ts have "t \<in> used_terms (terms_of gs)" unfolding used_terms_def by blast
    with assms(7) u show False by simp
  qed
  with combine_terms_sym show ?thesis by blast
qed

theorem absorption_invariant_witness:
  "generation 4 [''0000'', ''0001'', ''0110'', ''1011'']
     [(0, [''0000'']), (1, [''0001'']), (2, [''0110'']), (3, [''1011'']), (4, [])] \<and>
   merge_outer [(0, [''0000'']), (1, [''0001'']), (2, [''0110'']), (3, [''1011'']), (4, [])]
       [0..4 - 1] (empty_groups 4, {})
     = Inr ([(0, [''000-'']), (1, []), (2, []), (3, []), (4, [])], {''0000'', ''0001''}) \<and>
   ''0110'' \<notin> {''0000'', ''0001''} \<and> ''1011'' \<notin> {''0000'', ''0001''} \<and>
   combine_terms ''0110'' ''1011'' = None \<and> combine_terms ''1011'' ''0110'' = None"
proof -
  let ?gs = "[(0, [''0000'']), (1, [''0001'']), (2, [''0110'']), (3, [''1011'']), (4, [])] :: groups"
  let ?used = "{''0000'', ''0001''} :: string set"
  have "group_minterms 4 [''0000'', ''0001'', ''0110'', ''1011''] (empty_groups 4, [])
          = Inr (?gs, [])"
    by code_simp
  then have g: "generation 4 [''0000'', ''0001'', ''0110'', ''1011''] ?gs"
    by (rule generation.initial)
  have m: "merge_outer ?gs [0..4 - 1] (empty_groups 4, {})
             = Inr ([(0, [''000-'']), (1, []), (2, []), (3, []), (4, [])], ?used)"
    by code_simp
  have l1: "map_of ?gs 2 = Some [''0110'']" by simp
  have l2: "map_of ?gs (2 + 1) = Some [''1011'']" by simp
  have i1: "''0110'' \<in> set [''0110'']" by simp
  have i2: "''1011'' \<in> set [''1011'']" by simp
  have u1: "''0110'' \<notin> ?used" by simp
  have u2: "''1011'' \<notin> ?used" by simp
  from absorption_invariant [OF g m l1 l2 i1 i2 u1 u2] g m u1 u2 show ?thesis
    by (intro conjI) simp_all
qed

text \<open>
  C5: the scenario of width 3 with the minterms 000, 001, 010, 011. The first pass merges
  000/001 into 00- and 010/011 into 01- (and also produces 0-0 and 0-1), the second pass
  merges these into 0--, the third pass finds nothing to merge, and the result is the
  single term 0--.
\<close>

theorem scenario_four_minterms:
  "group_minterms 3 [''000'', ''001'', ''010'', ''011''] (empty_groups 3, [])
     = Inr ([(0, [''000'']), (1, [''001'', ''010'']), (2, [''011'']), (3, [])], []) \<and>
   combine_terms ''000'' ''001'' = Some ''00-'' \<and>
   combine_terms ''010'' ''011'' = Some ''01-'' \<and>
   qm_pass 3 [(0, [''000'']), (1, [''001'', ''010'']), (2, [''011'']), (3, [])] {}
     = Inr ([(0, [''00-'', ''0-0'']), (1, [''0-1'', ''01-'']), (2, []), (3, [])], {}) \<and>
   combine_terms ''00-'' ''01-'' = Some ''0--'' \<and>
   qm_pass 3 [(0, [''00-'', ''0-0'']), (1, [''0-1'', ''01-'']), (2, []), (3, [])] {}
     = Inr ([(0, [''0--'', ''0--'']), (1, []), (2, []), (3, [])], {}) \<and>
   qm_pass 3 [(0, [''0--'', ''0--'']), (1, []), (2, []), (3, [])] {}
     = Inr ([(0, []), (1, []), (2, []), (3, [])], {''0--''}) \<and>
   quine_mccluskey 3 [''000'', ''001'', ''010'', ''011''] = Some (Inr [''0--''])"
  by code_simp

theorem scenario_four_minterms_witness:
  "quine_mccluskey 3 [''000'', ''001'', ''010'', ''011''] = Some (Inr [''0--''])"
  using scenario_four_minterms by simp

text \<open>
  C7: malformed terms. The grouping loop warns about exactly the terms that fail the
  check (wrong length or a symbol outside 0, 1, -), in input order, and builds the same
  dictionary as on the well-formed terms alone; the run never fails, its result is the
  result on the well-formed terms alone, and a list without any well-formed term gives the
  empty result.
\<close>

theorem malformed_terms_skipped:
  "(\<exists>gs. group_minterms n minterms (empty_groups n, [])
            = Inr (gs, filter (invalid_term n) minterms) \<and>
         group_minterms n (filter (\<lambda>t. \<not> invalid_term n t) minterms) (empty_groups n, [])
            = Inr (gs, []) \<and>
         terms_of gs = {t \<in> set minterms. \<not> invalid_term n t}) \<and>
   (\<exists>r. quine_mccluskey n minterms = Some (Inr r)) \<and>
   quine_mccluskey n minterms
     = quine_mccluskey n (filter (\<lambda>t. \<not> invalid_term n t) minterms) \<and>
   (list_all (invalid_term n) minterms \<longrightarrow> quine_mccluskey n minterms = Some (Inr []))"
proof -
  from group_minterms_initial [of n minterms] obtain gs where
    g: "group_minterms n minterms (empty_groups n, []) = Inr (gs, filter (invalid_term n) minterms)"
    and t: "terms_of gs = {t \<in> set minterms. \<not> invalid_term n t}" by blast
  from group_minterms_filter [OF g, of "[]"] have
    f: "group_minterms n (filter (\<lambda>t. \<not> invalid_term n t) minterms) (empty_groups n, [])
            = Inr (gs, [])" .
  have e: "quine_mccluskey n minterms
     = quine_mccluskey n (filter (\<lambda>t. \<not> invalid_term n t) minterms)"
    by (simp add: quine_mccluskey_def g f)
  have a: "quine_mccluskey n minterms = Some (Inr [])" if "list_all (invalid_term n) minterms"
  proof -
    from that have "valid_terms n minterms = {}"
      by (auto simp: valid_terms_def list_all_iff)
    then show ?thesis by (simp add: quine_mccluskey_eq)
  qed
  from g f t e a quine_mccluskey_eq [of n minterms] show ?thesis by blast
qed

theorem malformed_terms_skipped_witness:
  "list_all (invalid_term 2) [''0'', ''0x'', ''111''] \<and>
   quine_mccluskey 2 [''0'', ''0x'', ''111''] = Some (Inr []) \<and>
   quine_mccluskey 2 [''00'', ''2-'', ''01'', ''1''] = Some (Inr [''0-'']) \<and>
   quine_mccluskey 2 (filter (\<lambda>t. \<not> invalid_term 2 t) [''00'', ''2-'', ''01'', ''1''])
     = Some (Inr [''0-''])"
proof -
  have a: "list_all (invalid_term 2) [''0'', ''0x'', ''111'']" by code_simp
  have v: "quine_mccluskey 2 [''00'', ''2-'', ''01'', ''1''] = Some (Inr [''0-''])" by code_simp
  from malformed_terms_skipped [of 2 "[''0'', ''0x'', ''111'']"] a
  have r1: "quine_mccluskey 2 [''0'', ''0x'', ''111''] = Some (Inr [])" by blast
  from malformed_terms_skipped [of 2 "[''00'', ''2-'', ''01'', ''1'']"]
  have "quine_mccluskey 2 [''00'', ''2-'', ''01'', ''1'']
     = quine_mccluskey 2 (filter (\<lambda>t. \<not> invalid_term 2 t) [''00'', ''2-'', ''01'', ''1''])"
    by blast
  then have r2: "quine_mccluskey 2 (filter (\<lambda>t. \<not> invalid_term 2 t) [''00'', ''2-'', ''01'', ''1''])
     = Some (Inr [''0-''])"
    unfolding v by (rule sym)
  from a r1 v r2 show ?thesis by (intro conjI)
qed

text \<open>
  C9: coverage. Every well-formed input minterm (length \<open>N\<close>, symbols 0 and 1) is covered
  by a term of the output.
\<close>

theorem coverage_soundness:
  assumes "m \<in> set minterms" and "int (length m) = n" and "set m \<subseteq> {CHR ''0'', CHR ''1''}"
  shows "\<exists>r. quine_mccluskey n minterms = Some (Inr r) \<and> (\<exists>t \<in> set r. covers t m)"
proof -
  from assms(2,3) have "\<not> invalid_term n m"
    by (auto simp: invalid_term_def list_all_iff)
  with assms(1) have "m \<in> valid_terms n minterms" by (simp add: valid_terms_def)
  from survivors_cover [OF valid_terms_valid valid_terms_bound this]
  obtain t where "t \<in> survivors (Suc (nat n)) (valid_terms n minterms)" "covers t m" by blast
  then show ?thesis
    using finite_result [of "Suc (nat n)" n minterms] by (auto simp: quine_mccluskey_eq)
qed

theorem coverage_soundness_witness:
  "''01'' \<in> set [''00'', ''01'', ''11''] \<and> int (length ''01'') = 2 \<and>
   quine_mccluskey 2 [''00'', ''01'', ''11''] = Some (Inr [''-1'', ''0-'']) \<and>
   (\<exists>t \<in> set [''-1'', ''0-'']. covers t ''01'')"
proof -
  have a: "''01'' \<in> set [''00'', ''01'', ''11'']" by simp
  have b: "int (length ''01'') = 2" by simp
  have c: "set ''01'' \<subseteq> {CHR ''0'', CHR ''1''}" by simp
  have v: "quine_mccluskey 2 [''00'', ''01'', ''11''] = Some (Inr [''-1'', ''0-''])" by code_simp
  from coverage_soundness [OF a b c] v a b show ?thesis by simp
qed

text \<open>
  C10: index safety, for \<open>N \<ge> 0\<close>. A well-formed term has between 0 and \<open>N\<close> ones, and so has
  a term merged from two terms of length \<open>N\<close>; every generation of \<open>groups\<close> has the keys
  \<open>0..N\<close>, stores only well-formed terms, each under its number of ones, and its pass
  raises no KeyError; the run returns a list of well-formed terms.
\<close>

theorem group_accesses_never_fail:
  assumes "0 \<le> n"
  shows "(\<forall>t. \<not> invalid_term n t \<longrightarrow> 0 \<le> count_ones t \<and> count_ones t \<le> n) \<and>
         (\<forall>a b c. int (length a) = n \<and> int (length b) = n \<and> combine_terms a b = Some c \<longrightarrow>
            int (length c) = n \<and> 0 \<le> count_ones c \<and> count_ones c \<le> n) \<and>
         (\<forall>gs. generation n minterms gs \<longrightarrow>
            map fst gs = [0..n] \<and>
            (\<forall>k group. map_of gs k = Some group \<longrightarrow>
               (\<forall>t \<in> set group. \<not> invalid_term n t \<and> count_ones t = k)) \<and>
            (\<forall>primes. \<exists>next_groups primes'. qm_pass n gs primes = Inr (next_groups, primes'))) \<and>
         (\<exists>r. quine_mccluskey n minterms = Some (Inr r) \<and> (\<forall>t \<in> set r. \<not> invalid_term n t))"
proof -
  have 1: "\<forall>t. \<not> invalid_term n t \<longrightarrow> 0 \<le> count_ones t \<and> count_ones t \<le> n"
    using valid_count_ones by blast
  have 2: "int (length c) = n \<and> 0 \<le> count_ones c \<and> count_ones c \<le> n"
    if "int (length a) = n \<and> int (length b) = n \<and> combine_terms a b = Some c" for a b c
  proof -
    from that have "c = map (\<lambda>(x, y). if x \<noteq> y then CHR ''-'' else x) (zip a b)"
      by (simp add: combine_terms_eq split: if_splits)
    with that have "int (length c) = n" by auto
    with count_ones_bounds [of c] show ?thesis by simp
  qed
  have 3: "map fst gs = [0..n] \<and>
            (\<forall>k group. map_of gs k = Some group \<longrightarrow>
               (\<forall>t \<in> set group. \<not> invalid_term n t \<and> count_ones t = k)) \<and>
            (\<forall>primes. \<exists>next_groups primes'. qm_pass n gs primes = Inr (next_groups, primes'))"
    if "generation n minterms gs" for gs
  proof -
    from generation_wf [OF that] have wf: "wf_groups n gs" .
    then have "map fst gs = [0..n]" by (simp add: wf_groups_def)
    moreover have "\<forall>t \<in> set group. \<not> invalid_term n t \<and> count_ones t = k"
      if "map_of gs k = Some group" for k group
      using wf that unfolding wf_groups_def bucket_def by (metis option.simps(5))
    moreover have "\<exists>next_groups primes'. qm_pass n gs primes = Inr (next_groups, primes')" for primes
      using qm_pass_spec [OF wf, of primes] by blast
    ultimately show ?thesis by blast
  qed
  have 4: "\<exists>r. quine_mccluskey n minterms = Some (Inr r) \<and> (\<forall>t \<in> set r. \<not> invalid_term n t)"
    using result_valid [of "Suc (nat n)" n minterms]
      finite_result [of "Suc (nat n)" n minterms]
    by (simp add: quine_mccluskey_eq)
  from 1 2 3 4 show ?thesis by blast
qed

theorem group_accesses_never_fail_witness:
  "(0 :: int) \<le> 2 \<and>
   generation 2 [''00'', ''01'', ''x''] [(0, [''00'']), (1, [''01'']), (2, [])] \<and>
   map fst [(0 :: int, [''00'']), (1, [''01'']), (2, [])] = [0..2] \<and>
   (\<exists>next_groups primes'.
      qm_pass 2 [(0, [''00'']), (1, [''01'']), (2, [])] {} = Inr (next_groups, primes')) \<and>
   quine_mccluskey 2 [''00'', ''01'', ''x''] = Some (Inr [''0-'']) \<and>
   \<not> invalid_term 2 ''0-''"
proof -
  let ?gs = "[(0, [''00'']), (1, [''01'']), (2, [])] :: groups"
  have n: "(0 :: int) \<le> 2" by simp
  have "group_minterms 2 [''00'', ''01'', ''x''] (empty_groups 2, []) = Inr (?gs, [''x''])"
    by code_simp
  then have g: "generation 2 [''00'', ''01'', ''x''] ?gs" by (rule generation.initial)
  have v: "quine_mccluskey 2 [''00'', ''01'', ''x''] = Some (Inr [''0-''])" by code_simp
  note t = group_accesses_never_fail [OF n, of "[''00'', ''01'', ''x'']"]
  from t g have k: "map fst ?gs = [0..2]" by blast
  from t g have p: "\<exists>next_groups primes'. qm_pass 2 ?gs {} = Inr (next_groups, primes')" by blast
  from t v have i: "\<not> invalid_term 2 ''0-''" by auto
  from n g k p v i show ?thesis by (intro conjI)
qed

text \<open>
  C6, as the code has it. The validity check admits don't-care symbols in the input. With
  width 2 and the input 00, 01, 1- the run returns 0- and 1- (the term 1- is kept in the
  first pass, 0- is produced by it), and a second run on that output merges the two into
  --: the set shrinks.
\<close>

theorem re_reduction_shrinks_with_dont_cares:
  "quine_mccluskey 2 [''00'', ''01'', ''1-''] = Some (Inr [''0-'', ''1-'']) \<and>
   quine_mccluskey 2 [''0-'', ''1-''] = Some (Inr [''--''])"
  by code_simp

text \<open>
  C6, amended: when no minterm of the first run's input contains a don't-care symbol, a
  second run of \<open>quine_mccluskey\<close> on the output of the first returns that same output.
\<close>

theorem re_reduction_idempotent:
  assumes "\<forall>t \<in> set minterms. CHR ''-'' \<notin> set t"
  shows "\<exists>r. quine_mccluskey n minterms = Some (Inr r) \<and> quine_mccluskey n r = Some (Inr r)"
proof -
  define M where "M = valid_terms n minterms"
  define P where "P = survivors (Suc (nat n)) M"
  define r where "r = sorted_list_of_set P"
  have pure: "\<forall>t \<in> M. \<not> invalid_term n t \<and> CHR ''-'' \<notin> set t"
    using assms by (simp add: M_def valid_terms_def)
  have "finite P" unfolding P_def M_def by (rule finite_result)
  then have "set r = P" by (simp add: r_def)
  moreover have "\<forall>t \<in> P. \<not> invalid_term n t"
    unfolding P_def M_def by (rule result_valid)
  ultimately have v: "valid_terms n r = P" unfolding valid_terms_def by blast
  have f: "survivors (Suc (nat n)) P = P"
    unfolding P_def by (rule survivors_fixed [OF pure])
  have "quine_mccluskey n r = Some (Inr (sorted_list_of_set (survivors (Suc (nat n)) (valid_terms n r))))"
    by (rule quine_mccluskey_eq)
  then have 2: "quine_mccluskey n r = Some (Inr r)"
    unfolding v f r_def [symmetric] .
  have 1: "quine_mccluskey n minterms = Some (Inr r)"
    unfolding r_def P_def M_def by (rule quine_mccluskey_eq)
  from 1 2 show ?thesis by blast
qed

theorem re_reduction_idempotent_witness:
  "CHR ''-'' \<notin> set ''000'' \<and> CHR ''-'' \<notin> set ''001'' \<and> CHR ''-'' \<notin> set ''101'' \<and>
   quine_mccluskey 3 [''000'', ''001'', ''101''] = Some (Inr [''-01'', ''00-'']) \<and>
   quine_mccluskey 3 [''-01'', ''00-''] = Some (Inr [''-01'', ''00-''])"
proof -
  have a: "\<forall>t \<in> set [''000'', ''001'', ''101'']. CHR ''-'' \<notin> set t" by simp
  have v: "quine_mccluskey 3 [''000'', ''001'', ''101''] = Some (Inr [''-01'', ''00-''])"
    by code_simp
  from re_reduction_idempotent [OF a, of 3] v
  have "quine_mccluskey 3 [''-01'', ''00-''] = Some (Inr [''-01'', ''00-''])" by simp
  with v show ?thesis by simp
qed




end
